theory Spec2Isabelle
  imports Complex_Main "HOL-Library.Sublist"
begin

section \<open>Tensors\<close>

text \<open>
  The script works on two-dimensional \<^verbatim>\<open>torch\<close> tensors of dtype double: a batch of
  design points or of observations, one per row. A tensor of shape \<open>(n, d)\<close> is a list of
  \<open>n\<close> rows, each a list of \<open>d\<close> numbers; the entries are real numbers (rounding of
  doubles is not part of the model). Indexing a column that does not exist raises in
  \<^verbatim>\<open>torch\<close>; the model returns the error as a value.
\<close>

type_synonym row = "real list"
type_synonym tensor = "row list"

datatype error = IndexError | RuntimeError

text \<open>\<^verbatim>\<open>X.sum()\<close>: the sum of all entries.\<close>

definition tsum :: "tensor \<Rightarrow> real" where
  "tsum X = sum_list (map sum_list X)"

text \<open>\<^verbatim>\<open>X.item()\<close>: the only entry of a one-element tensor; raises otherwise.\<close>

definition item :: "tensor \<Rightarrow> error + real" where
  "item X = (case concat X of [v] \<Rightarrow> Inr v | _ \<Rightarrow> Inl RuntimeError)"

text \<open>\<^verbatim>\<open>X[..., -1:]\<close>: a slice, so a tensor without columns gives a tensor without columns.\<close>

definition last_col :: "tensor \<Rightarrow> tensor" where
  "last_col X = map (\<lambda>r. drop (length r - 1) r) X"

text \<open>\<^verbatim>\<open>X[..., -1]\<close>: an index, so a tensor without columns raises.\<close>

definition get_last :: "tensor \<Rightarrow> error + real list" where
  "get_last X = (if list_ex (\<lambda>r. r = []) X then Inl IndexError else Inr (map last X))"

text \<open>
  \<^verbatim>\<open>X[:, -1] = f(X[:, -1])\<close>: the last column replaced; \<^verbatim>\<open>X[:, -1] = c\<close> is the case of a
  constant \<open>f\<close>.
\<close>

definition map_last_col :: "(real \<Rightarrow> real) \<Rightarrow> tensor \<Rightarrow> error + tensor" where
  "map_last_col f X =
     (if list_ex (\<lambda>r. r = []) X then Inl IndexError
      else Inr (map (\<lambda>r. butlast r @ [f (last r)]) X))"

text \<open>\<^verbatim>\<open>torch.ones(n, d)\<close>.\<close>

definition ones :: "nat \<Rightarrow> nat \<Rightarrow> tensor" where
  "ones n d = replicate n (replicate d 1)"

text \<open>
  \<^verbatim>\<open>torch.rand(n, d)\<close>: the random generator is a table \<open>rnd\<close> of uniform numbers,
  \<open>rnd i j\<close> being column \<open>j\<close> of the \<open>i\<close>-th row drawn from its present state;
  \<open>rand rnd i n d\<close> are the rows \<open>i, \<dots>, i + n - 1\<close>. \<^verbatim>\<open>torch.rand\<close> draws from the
  interval \<open>[0, 1)\<close>: that is \<open>uniform\<close>.
\<close>

definition rand :: "(nat \<Rightarrow> nat \<Rightarrow> real) \<Rightarrow> nat \<Rightarrow> nat \<Rightarrow> nat \<Rightarrow> tensor" where
  "rand rnd i n d = map (\<lambda>k. map (rnd k) [0..<d]) [i..<i + n]"

definition uniform :: "(nat \<Rightarrow> nat \<Rightarrow> real) \<Rightarrow> bool" where
  "uniform rnd \<longleftrightarrow> (\<forall>i j. 0 \<le> rnd i j \<and> rnd i j < 1)"

section \<open>The test problem and the settings\<close>

text \<open>
  \<^verbatim>\<open>BC = MOMFBraninCurrin(negate=True)\<close> comes from the library: the script reads its
  dimension, its bounds (a \<open>2 \<times> d\<close> tensor: lower and upper row) and calls it on batches
  of design points, row by row. It is a parameter of the model.
\<close>

type_synonym bounds = "row \<times> row"

record problem =
  dim :: nat
  bounds :: bounds
  evaluate :: "row \<Rightarrow> row"

definition BC_call :: "problem \<Rightarrow> tensor \<Rightarrow> tensor" where
  "BC_call BC X = map (evaluate BC) X"

definition BATCH_SIZE :: nat where
  "BATCH_SIZE = 1"

definition EVAL_BUDGET :: "bool \<Rightarrow> real" where
  "EVAL_BUDGET SMOKE_TEST = (if SMOKE_TEST then 2.1 else 4)"

definition n_INIT :: real where
  "n_INIT = 2"

text \<open>\<^verbatim>\<open>standard_bounds = torch.zeros(2, dim_x); standard_bounds[1] = 1\<close>.\<close>

definition standard_bounds :: "nat \<Rightarrow> bounds" where
  "standard_bounds d = (replicate d 0, replicate d 1)"

text \<open>\<^verbatim>\<open>bounds[:, :k]\<close>.\<close>

definition take_bounds :: "nat \<Rightarrow> bounds \<Rightarrow> bounds" where
  "take_bounds k b = (take k (fst b), take k (snd b))"

text \<open>
  Modelled from the spec: \<^verbatim>\<open>botorch.utils.transforms.unnormalize\<close> is not among the
  sources. Design points are kept in the normalized range \<open>[0, 1]\<close> per dimension, and
  \<^verbatim>\<open>unnormalize(X, bounds)\<close> is the affine map of the unit cube onto the box of the bounds,
  \<^verbatim>\<open>X * (bounds[1] - bounds[0]) + bounds[0]\<close>, column by column.
\<close>

definition unnormalize :: "tensor \<Rightarrow> bounds \<Rightarrow> tensor" where
  "unnormalize X b =
     map (\<lambda>r. map (\<lambda>(x, l, u). x * (u - l) + l) (zip r (zip (fst b) (snd b)))) X"

section \<open>Cost model\<close>

definition cost_func :: "real \<Rightarrow> real" where
  "cost_func x = exp (4.8 * x)"

definition cost_callable :: "tensor \<Rightarrow> tensor" where
  "cost_callable X = map (map cost_func) (last_col X)"

section \<open>Fidelity-biased initial data\<close>

text \<open>
  Python's \<^verbatim>\<open>5 / 24\<close> and \<^verbatim>\<open>24 / 5\<close> are true divisions. For \<open>u\<close> in \<open>[0, 1]\<close>, where
  \<^verbatim>\<open>torch.rand\<close> draws, the argument of the logarithm is positive; elsewhere
  \<^verbatim>\<open>torch.log\<close> may give \<^verbatim>\<open>nan\<close>, which the real logarithm does not model, so the
  properties of \<open>inv_transform\<close> are stated on \<open>[0, 1]\<close>.
\<close>

definition inv_transform :: "real \<Rightarrow> real" where
  "inv_transform u =
     5 / 24 * ln (- exp (24 / 5) / (exp (24 / 5) * u - u - exp (24 / 5)))"

text \<open>
  The distribution function that the specification of \<open>inv_transform\<close> names, in its
  words: \<open>F(s) = (1 - e\<^sup>-\<^sup>4\<^sup>.\<^sup>8\<^sup>s) / (1 - e\<^sup>-\<^sup>4\<^sup>.\<^sup>8)\<close>.
\<close>

definition spec_cdf :: "real \<Rightarrow> real" where
  "spec_cdf s = (1 - exp (- 4.8 * s)) / (1 - exp (- 4.8))"

text \<open>
  The point drawn in one pass of the loop of \<^verbatim>\<open>gen_init_data\<close>:
  \<^verbatim>\<open>new_x = torch.rand(1, d); new_x[:, -1] = inv_transform(new_x[:, -1])\<close>.
\<close>

definition new_point :: "nat \<Rightarrow> (nat \<Rightarrow> nat \<Rightarrow> real) \<Rightarrow> nat \<Rightarrow> error + tensor" where
  "new_point d rnd i = map_last_col inv_transform (rand rnd i 1 d)"

text \<open>
  The \<^verbatim>\<open>while\<close> loop of \<^verbatim>\<open>gen_init_data\<close>. \<open>i\<close> counts the rows drawn so far,
  \<open>total_cost\<close> is a \<open>1 \<times> 1\<close> tensor in the script, here its entry.
  The loop has no bound of its own: \<open>None\<close> is a run that never leaves it.
\<close>

partial_function (option) gen_init_loop ::
  "nat \<Rightarrow> (nat \<Rightarrow> nat \<Rightarrow> real) \<Rightarrow> real \<Rightarrow> nat \<Rightarrow> real \<Rightarrow> tensor \<Rightarrow> (error + tensor) option"
where
  "gen_init_loop d rnd total_cost_limit i total_cost train_x =
     (if total_cost < total_cost_limit then
        (case new_point d rnd i of
           Inl e \<Rightarrow> Some (Inl e)
         | Inr new_x \<Rightarrow>
             gen_init_loop d rnd total_cost_limit (Suc i)
               (total_cost + tsum (cost_callable new_x)) (train_x @ new_x))
      else Some (Inr train_x))"

text \<open>
  \<^verbatim>\<open>gen_init_data(n)\<close>. The annotation \<^verbatim>\<open>n: int\<close> is not enforced and the budget is a
  multiple of the cost of one full-fidelity evaluation, so \<open>n\<close> is a real number.
\<close>

definition gen_init_data ::
  "problem \<Rightarrow> (nat \<Rightarrow> nat \<Rightarrow> real) \<Rightarrow> real \<Rightarrow> (error + tensor \<times> tensor) option"
where
  "gen_init_data BC rnd n =
     (let d = length (fst (bounds BC)) in
      case item (cost_callable (ones 1 d)) of
        Inl e \<Rightarrow> Some (Inl e)
      | Inr c \<Rightarrow>
          (case gen_init_loop d rnd (n * c) 0 0 [] of
             None \<Rightarrow> None
           | Some (Inl e) \<Rightarrow> Some (Inl e)
           | Some (Inr train_x) \<Rightarrow>
               Some (Inr (butlast train_x, BC_call BC (butlast train_x)))))"

section \<open>Objectives\<close>

text \<open>
  \<^verbatim>\<open>torch.cat([A, B], dim=-1)\<close>: the rows of \<open>A\<close> extended by the rows of \<open>B\<close>; raises
  when the numbers of rows differ. (\<^verbatim>\<open>torch.cat(..., dim=0)\<close> is list append.)
\<close>

definition cat_cols :: "tensor \<Rightarrow> tensor \<Rightarrow> error + tensor" where
  "cat_cols A B = (if length A = length B then Inr (map2 (@) A B) else Inl RuntimeError)"

definition fid_obj :: "tensor \<Rightarrow> error + real list" where
  "fid_obj X = (case get_last X of Inl e \<Rightarrow> Inl e | Inr c \<Rightarrow> Inr (map (\<lambda>s. 1 * s) c))"

definition get_objective_momf :: "problem \<Rightarrow> tensor \<Rightarrow> error + tensor" where
  "get_objective_momf BC x =
     (let y = BC_call BC x in
      case fid_obj x of
        Inl e \<Rightarrow> Inl e
      | Inr fid \<Rightarrow> (let fid_out = map (\<lambda>f. [f]) fid in cat_cols y fid_out))"

section \<open>Optimizing the acquisition function and observing\<close>

text \<open>
  Model fitting, the acquisition functions and \<^verbatim>\<open>optimize_acqf\<close> belong to the library.
  What the script uses of them is the pair that \<^verbatim>\<open>optimize_acqf\<close> returns for the given
  bounds and batch size \<open>q\<close>: the candidates (a \<open>q \<times> d\<close> tensor, \<open>d\<close> the number of columns
  of the bounds) and the acquisition value. That function is a parameter here; its
  contract, where a property needs it, is \<open>acqf_contract\<close>: for bounds whose lower row is
  below the upper row, \<open>q\<close> candidates, each with the columns of the bounds and inside them.
\<close>

type_synonym acqf_optimizer = "bounds \<Rightarrow> nat \<Rightarrow> tensor \<times> real"

definition in_bounds :: "bounds \<Rightarrow> row \<Rightarrow> bool" where
  "in_bounds b r \<longleftrightarrow>
     length r = length (fst b) \<and> length r = length (snd b)
     \<and> list_all2 (\<le>) (fst b) r \<and> list_all2 (\<le>) r (snd b)"

definition acqf_contract :: "acqf_optimizer \<Rightarrow> bool" where
  "acqf_contract optimize_acqf \<longleftrightarrow>
     (\<forall>b q. list_all2 (\<le>) (fst b) (snd b) \<longrightarrow>
            length (fst (optimize_acqf b q)) = q
            \<and> list_all (in_bounds b) (fst (optimize_acqf b q)))"

definition optimize_MOMF_and_get_obs ::
  "problem \<Rightarrow> acqf_optimizer \<Rightarrow> bounds \<Rightarrow> nat \<Rightarrow> error + tensor \<times> tensor"
where
  "optimize_MOMF_and_get_obs BC optimize_acqf standard_bounds' q =
     (let (candidates, vals) = optimize_acqf standard_bounds' q in
      case (if vals = 0 then map_last_col (\<lambda>_. 0) candidates else Inr candidates) of
        Inl e \<Rightarrow> Inl e
      | Inr candidates \<Rightarrow>
          (let new_x = unnormalize candidates standard_bounds' in
           case get_objective_momf BC new_x of
             Inl e \<Rightarrow> Inl e
           | Inr new_obj \<Rightarrow> Inr (new_x, new_obj)))"

definition optimize_HVKG_and_get_obs ::
  "problem \<Rightarrow> acqf_optimizer \<Rightarrow> bounds \<Rightarrow> nat \<Rightarrow> error + tensor \<times> tensor"
where
  "optimize_HVKG_and_get_obs BC optimize_acqf standard_bounds' q =
     (let (candidates, vals) = optimize_acqf standard_bounds' q in
      case (if vals = 0 then map_last_col (\<lambda>_. 0) candidates else Inr candidates) of
        Inl e \<Rightarrow> Inl e
      | Inr candidates \<Rightarrow>
          (let new_x = unnormalize candidates (bounds BC);
               new_obj = BC_call BC new_x
           in Inr (new_x, new_obj)))"

definition optimize_qNEHVI_and_get_obs ::
  "problem \<Rightarrow> acqf_optimizer \<Rightarrow> bounds \<Rightarrow> nat \<Rightarrow> error + tensor \<times> tensor"
where
  "optimize_qNEHVI_and_get_obs BC optimize_acqf standard_bounds' q =
     (let (candidates, _) = optimize_acqf standard_bounds' q;
          new_x = unnormalize candidates standard_bounds'
      in case cat_cols new_x (ones q 1) of
           Inl e \<Rightarrow> Inl e
         | Inr new_x \<Rightarrow> (let new_obj = BC_call BC new_x in Inr (new_x, new_obj)))"

section \<open>The optimization loops\<close>

text \<open>
  The three loops of the script share their shape: the state is the data set, the
  iteration counter and the cost spent; one pass fits a model on the data, asks the
  strategy's helper for a new batch with its observations, appends both and adds the cost of
  the batch. The fitted model and the state of the samplers are functions of the state, so
  the library's part of one pass is a function from the state to an \<open>acqf_optimizer\<close>.
\<close>

record loop_state =
  train_x :: tensor
  train_obj :: tensor
  iteration :: nat
  total_cost :: real

type_synonym strategy = "loop_state \<Rightarrow> acqf_optimizer"

text \<open>
  \<^verbatim>\<open>iteration = 0; total_cost = cost_callable(train_x).sum().item()\<close>.
\<close>

definition loop_init :: "tensor \<Rightarrow> tensor \<Rightarrow> loop_state" where
  "loop_init X Y =
     \<lparr>train_x = X, train_obj = Y, iteration = 0, total_cost = tsum (cost_callable X)\<rparr>"

text \<open>
  The end of a pass:
  \<^verbatim>\<open>train_x = torch.cat([train_x, new_x], dim=0); train_obj = torch.cat([train_obj, new_obj], dim=0);
  iteration += 1; total_cost += cost_callable(new_x).sum().item()\<close>.
\<close>

definition loop_update :: "loop_state \<Rightarrow> tensor \<Rightarrow> tensor \<Rightarrow> loop_state" where
  "loop_update s new_x new_obj =
     \<lparr>train_x = train_x s @ new_x,
      train_obj = train_obj s @ new_obj,
      iteration = iteration s + 1,
      total_cost = total_cost s + tsum (cost_callable new_x)\<rparr>"

text \<open>
  \<^verbatim>\<open>while total_cost < EVAL_BUDGET * cost_func(1): ...\<close>, with the budget and the helper
  of the strategy as parameters. \<open>None\<close> is a run that never leaves the loop; an error of
  the helper ends the run.
\<close>

partial_function (option) optimization_loop ::
  "(loop_state \<Rightarrow> error + tensor \<times> tensor) \<Rightarrow> real \<Rightarrow> loop_state \<Rightarrow> (error + loop_state) option"
where
  "optimization_loop get_obs budget s =
     (if total_cost s < budget then
        (case get_obs s of
           Inl e \<Rightarrow> Some (Inl e)
         | Inr (new_x, new_obj) \<Rightarrow>
             optimization_loop get_obs budget (loop_update s new_x new_obj))
      else Some (Inr s))"

definition momf_get_obs :: "problem \<Rightarrow> strategy \<Rightarrow> loop_state \<Rightarrow> error + tensor \<times> tensor" where
  "momf_get_obs BC acq s =
     optimize_MOMF_and_get_obs BC (acq s) (standard_bounds (dim BC)) BATCH_SIZE"

definition hvkg_get_obs :: "problem \<Rightarrow> strategy \<Rightarrow> loop_state \<Rightarrow> error + tensor \<times> tensor" where
  "hvkg_get_obs BC acq s =
     optimize_HVKG_and_get_obs BC (acq s) (standard_bounds (dim BC)) BATCH_SIZE"

definition qnehvi_get_obs :: "problem \<Rightarrow> strategy \<Rightarrow> loop_state \<Rightarrow> error + tensor \<times> tensor" where
  "qnehvi_get_obs BC acq s =
     optimize_qNEHVI_and_get_obs BC (acq s) (take_bounds 2 (standard_bounds (dim BC))) BATCH_SIZE"

definition momf_loop ::
  "bool \<Rightarrow> problem \<Rightarrow> strategy \<Rightarrow> loop_state \<Rightarrow> (error + loop_state) option" where
  "momf_loop SMOKE_TEST BC acq =
     optimization_loop (momf_get_obs BC acq) (EVAL_BUDGET SMOKE_TEST * cost_func 1)"

definition hvkg_loop ::
  "bool \<Rightarrow> problem \<Rightarrow> strategy \<Rightarrow> loop_state \<Rightarrow> (error + loop_state) option" where
  "hvkg_loop SMOKE_TEST BC acq =
     optimization_loop (hvkg_get_obs BC acq) (EVAL_BUDGET SMOKE_TEST * cost_func 1)"

definition qnehvi_loop ::
  "bool \<Rightarrow> problem \<Rightarrow> strategy \<Rightarrow> loop_state \<Rightarrow> (error + loop_state) option" where
  "qnehvi_loop SMOKE_TEST BC acq =
     optimization_loop (qnehvi_get_obs BC acq) (EVAL_BUDGET SMOKE_TEST * cost_func 1)"

text \<open>The data the loops start from.\<close>

definition momf_start :: "problem \<Rightarrow> (nat \<Rightarrow> nat \<Rightarrow> real) \<Rightarrow> (error + loop_state) option" where
  "momf_start BC rnd =
     (case gen_init_data BC rnd n_INIT of
        None \<Rightarrow> None
      | Some (Inl e) \<Rightarrow> Some (Inl e)
      | Some (Inr (train_x_momf, _)) \<Rightarrow>
          (case get_objective_momf BC train_x_momf of
             Inl e \<Rightarrow> Some (Inl e)
           | Inr train_obj_momf \<Rightarrow> Some (Inr (loop_init train_x_momf train_obj_momf))))"

definition hvkg_start :: "problem \<Rightarrow> (nat \<Rightarrow> nat \<Rightarrow> real) \<Rightarrow> (error + loop_state) option" where
  "hvkg_start BC rnd =
     (case gen_init_data BC rnd n_INIT of
        None \<Rightarrow> None
      | Some (Inl e) \<Rightarrow> Some (Inl e)
      | Some (Inr (train_x_kg, train_obj_kg)) \<Rightarrow> Some (Inr (loop_init train_x_kg train_obj_kg)))"

text \<open>
  \<^verbatim>\<open>train_x_qnehvi = torch.rand(2,3); train_x_qnehvi[:,-1] = 1;
  train_obj_qnehvi = BC(train_x_qnehvi)\<close>.
\<close>

definition qnehvi_start :: "problem \<Rightarrow> (nat \<Rightarrow> nat \<Rightarrow> real) \<Rightarrow> error + loop_state" where
  "qnehvi_start BC rnd =
     (case map_last_col (\<lambda>_. 1) (rand rnd 0 2 3) of
        Inl e \<Rightarrow> Inl e
      | Inr train_x_qnehvi \<Rightarrow> Inr (loop_init train_x_qnehvi (BC_call BC train_x_qnehvi)))"

text \<open>
  The states at the head of a loop: \<open>reaches get_obs budget s s'\<close> when the loop started
  in \<open>s\<close> stands in \<open>s'\<close> after some number of passes.
\<close>

inductive reaches ::
  "(loop_state \<Rightarrow> error + tensor \<times> tensor) \<Rightarrow> real \<Rightarrow> loop_state \<Rightarrow> loop_state \<Rightarrow> bool"
  for get_obs :: "loop_state \<Rightarrow> error + tensor \<times> tensor" and budget :: real and s :: loop_state
where
  start: "reaches get_obs budget s s"
| pass: "reaches get_obs budget s s' \<Longrightarrow> total_cost s' < budget \<Longrightarrow>
         get_obs s' = Inr (new_x, new_obj) \<Longrightarrow>
         reaches get_obs budget s (loop_update s' new_x new_obj)"

section \<open>The Pareto evaluator over a discrete set\<close>

definition NUM_DISCRETE_POINTS :: "bool \<Rightarrow> nat" where
  "NUM_DISCRETE_POINTS SMOKE_TEST = (if SMOKE_TEST then 100 else 100000)"

definition CHUNK_SIZE :: nat where
  "CHUNK_SIZE = 512"

text \<open>
  Modelled from the spec: \<^verbatim>\<open>project_to_target_fidelity\<close> is not among the sources.
  Projecting sets the fidelity, the last of the \<open>d\<close> coordinates of a design point, to its
  target value 1; a row that has only the \<open>d - 1\<close> other coordinates gets the fidelity
  appended.
\<close>

definition project :: "nat \<Rightarrow> tensor \<Rightarrow> tensor" where
  "project d X = map (\<lambda>r. take (d - 1) r @ [1]) X"

text \<open>
  The candidate set of the discretized \<^verbatim>\<open>get_pareto\<close>:
  \<^verbatim>\<open>discrete_set = torch.rand(NUM_DISCRETE_POINTS, dim_x - 1)\<close>, projected for a
  multi-fidelity model, then \<^verbatim>\<open>discrete_set[:, -1] = 1.0\<close>. \<^verbatim>\<open>torch.rand\<close> raises on the
  negative size \<open>dim_x - 1\<close> when \<open>dim_x = 0\<close>.
\<close>

definition discrete_candidates ::
  "problem \<Rightarrow> bool \<Rightarrow> (nat \<Rightarrow> nat \<Rightarrow> real) \<Rightarrow> bool \<Rightarrow> error + tensor"
where
  "discrete_candidates BC SMOKE_TEST rnd is_mf_model =
     (let dim_x = dim BC in
      if dim_x = 0 then Inl RuntimeError
      else
        (let discrete_set = rand rnd 0 (NUM_DISCRETE_POINTS SMOKE_TEST) (dim_x - 1);
             discrete_set = (if is_mf_model then project dim_x discrete_set else discrete_set)
         in map_last_col (\<lambda>_. 1) discrete_set))"

text \<open>
  The posterior mean of the fitted model is evaluated with every design point as a batch of
  its own (\<^verbatim>\<open>unsqueeze(-2)\<close>), so it is a function \<open>model\<close> from a design point to
  its predicted objectives, applied chunk by chunk:
  \<^verbatim>\<open>for start in range(0, NUM_DISCRETE_POINTS, CHUNK_SIZE): preds_list.append(...)\<close>
  and \<^verbatim>\<open>torch.cat(preds_list, dim=0)\<close>.
\<close>

function posterior_means :: "(row \<Rightarrow> row) \<Rightarrow> tensor \<Rightarrow> nat \<Rightarrow> nat \<Rightarrow> tensor" where
  "posterior_means model discrete_set n start =
     (if start < n then
        map model (take CHUNK_SIZE (drop start discrete_set))
          @ posterior_means model discrete_set n (start + CHUNK_SIZE)
      else [])"
  by pat_completeness auto
termination
  by (relation "measure (\<lambda>(model, discrete_set, n, start). n - start)")
    (auto simp: CHUNK_SIZE_def)

declare posterior_means.simps [simp del]

text \<open>
  Modelled from the spec: \<^verbatim>\<open>_is_non_dominated_loop\<close> is not among the sources. A point is
  non-dominated when no other point is at least as good on every objective and strictly
  better on one (objectives are maximized); the filter compares the points pairwise and
  returns the mask of the non-dominated ones.
\<close>

definition dominates :: "row \<Rightarrow> row \<Rightarrow> bool" where
  "dominates a b \<longleftrightarrow>
     list_all (\<lambda>(x, y). y \<le> x) (zip a b) \<and> list_ex (\<lambda>(x, y). y < x) (zip a b)"

definition is_non_dominated_loop :: "tensor \<Rightarrow> bool list" where
  "is_non_dominated_loop Y = map (\<lambda>y. \<not> list_ex (\<lambda>z. dominates z y) Y) Y"

text \<open>\<^verbatim>\<open>X[mask]\<close>: the rows of \<open>X\<close> at which the mask is true.\<close>

definition mask_select :: "tensor \<Rightarrow> bool list \<Rightarrow> tensor" where
  "mask_select X pareto_mask = map fst (filter snd (zip X pareto_mask))"

text \<open>The non-domination filter of the discretized \<^verbatim>\<open>get_pareto\<close>, from the candidate set
  to \<^verbatim>\<open>pareto_X = discrete_set[pareto_mask]\<close>.\<close>

definition pareto_filter :: "bool \<Rightarrow> (row \<Rightarrow> row) \<Rightarrow> tensor \<Rightarrow> tensor" where
  "pareto_filter SMOKE_TEST model discrete_set =
     (let preds = posterior_means model discrete_set (NUM_DISCRETE_POINTS SMOKE_TEST) 0;
          pareto_mask = is_non_dominated_loop preds
      in mask_select discrete_set pareto_mask)"

text \<open>
  The discretized \<^verbatim>\<open>get_pareto\<close>. The hypervolume of the observed Pareto set against
  \<^verbatim>\<open>BC.ref_point\<close> is computed by the library (\<^verbatim>\<open>FastNondominatedPartitioning\<close>):
  the function \<open>compute_hypervolume\<close> is a parameter.
\<close>

definition get_pareto ::
  "problem \<Rightarrow> (tensor \<Rightarrow> real) \<Rightarrow> bool \<Rightarrow> (nat \<Rightarrow> nat \<Rightarrow> real) \<Rightarrow> (row \<Rightarrow> row) \<Rightarrow> bool
     \<Rightarrow> error + real"
where
  "get_pareto BC compute_hypervolume SMOKE_TEST rnd model is_mf_model =
     (case discrete_candidates BC SMOKE_TEST rnd is_mf_model of
        Inl e \<Rightarrow> Inl e
      | Inr discrete_set \<Rightarrow>
          (let pareto_X = pareto_filter SMOKE_TEST model discrete_set;
               pareto_X = (if \<not> is_mf_model then project (dim BC) pareto_X else pareto_X);
               pareto_X = unnormalize pareto_X (bounds BC);
               Y = BC_call BC pareto_X
           in Inr (compute_hypervolume Y)))"

section \<open>The Pareto evaluator with the evolutionary search\<close>

text \<open>
  \<^verbatim>\<open>get_pareto\<close> when \<^verbatim>\<open>pymoo\<close> is present. The search (\<^verbatim>\<open>minimize\<close> with NSGA-II over the
  box \<open>[0, 1]\<close> of the non-fidelity coordinates), the filter \<^verbatim>\<open>is_non_dominated\<close> and the
  hypervolume belong to libraries: \<open>res_X\<close> is what the search returns,
  \<open>is_non_dominated\<close> and \<open>compute_hypervolume\<close> are parameters.
\<close>

definition get_pareto_nsga2 ::
  "problem \<Rightarrow> (tensor \<Rightarrow> real) \<Rightarrow> tensor \<Rightarrow> (tensor \<Rightarrow> bool list) \<Rightarrow> (row \<Rightarrow> row) \<Rightarrow> bool \<Rightarrow> real"
where
  "get_pareto_nsga2 BC compute_hypervolume res_X is_non_dominated model is_mf_model =
     (let X = res_X;
          X = (if is_mf_model then project (dim BC) X else X);
          preds = map model X;
          pareto_mask = is_non_dominated preds;
          X = mask_select X pareto_mask;
          X = (if \<not> is_mf_model then project (dim BC) X else X);
          X = unnormalize X (bounds BC);
          Y = BC_call BC X
      in compute_hypervolume Y)"

text \<open>
  Modelled from the spec: \<^verbatim>\<open>BC.max_hv\<close> is not among the sources. It is the maximum
  achievable hypervolume of the problem: the least upper bound of the hypervolumes of the
  objective values of finitely many feasible design points, a design point being feasible
  when it lies within the bounds and has the target fidelity (the upper end of the
  fidelity range).
\<close>

definition feasible :: "problem \<Rightarrow> row \<Rightarrow> bool" where
  "feasible BC r \<longleftrightarrow> r \<noteq> [] \<and> in_bounds (bounds BC) r \<and> last r = last (snd (bounds BC))"

definition achievable :: "problem \<Rightarrow> (tensor \<Rightarrow> real) \<Rightarrow> real set" where
  "achievable BC compute_hypervolume =
     {compute_hypervolume (BC_call BC X) | X. list_all (feasible BC) X}"

definition max_hv :: "problem \<Rightarrow> (tensor \<Rightarrow> real) \<Rightarrow> real" where
  "max_hv BC compute_hypervolume = Sup (achievable BC compute_hypervolume)"

text \<open>
  Modelled from the spec: the hypervolume of two objectives is the area of objective space
  that a set of points dominates relative to the reference point, here \<open>(0, 0)\<close>. The
  points are swept by decreasing first objective; each one that raises the best second
  objective seen so far adds a rectangle.
\<close>

definition sweep :: "row \<Rightarrow> real \<times> real \<Rightarrow> real \<times> real" where
  "sweep y = (\<lambda>(best, area).
     if best < y ! 1 then (y ! 1, area + y ! 0 * (y ! 1 - best)) else (best, area))"

definition hypervolume_2d :: "tensor \<Rightarrow> real" where
  "hypervolume_2d Y =
     snd (fold sweep
       (rev (sort_key (\<lambda>y. y ! 0) (filter (\<lambda>y. length y = 2 \<and> 0 < y ! 0 \<and> 0 < y ! 1) Y)))
       (0, 0))"

section \<open>A small instance\<close>

text \<open>
  A three-dimensional problem with two objectives on the unit cube, on which the theorems
  below are exercised.
\<close>

definition toy_problem :: problem where
  "toy_problem =
     \<lparr>dim = 3, bounds = ([0, 0, 0], [1, 1, 1]),
      evaluate = (\<lambda>x. [sum_list x, 3 - sum_list x])\<rparr>"

text \<open>
  An optimizer that keeps the contract: it proposes the midpoint of the bounds, \<open>q\<close> times,
  with acquisition value 0; and the strategy that uses it in every pass.
\<close>

definition midpoint_acqf :: acqf_optimizer where
  "midpoint_acqf b q = (replicate q (map2 (\<lambda>l u. (l + u) / 2) (fst b) (snd b)), 0)"

definition midpoint_strategy :: strategy where
  "midpoint_strategy s = midpoint_acqf"

section \<open>Properties of the cost model\<close>

lemma cost_func_pos: "0 < cost_func x" by (simp add: cost_func_def)
lemma cost_func_0: "cost_func 0 = 1" by (simp add: cost_func_def)
lemma cost_func_ge_1: "0 \<le> x \<Longrightarrow> 1 \<le> cost_func x" by (simp add: cost_func_def)
lemma cost_func_less_iff: "cost_func x < cost_func y \<longleftrightarrow> x < y" by (simp add: cost_func_def)
lemma cost_func_le_iff: "cost_func x \<le> cost_func y \<longleftrightarrow> x \<le> y" by (simp add: cost_func_def)

text \<open>
  C3: the cost of a fidelity is \<open>exp (4.8 \<cdot> fidelity)\<close>; the cost of fidelity 0 is exactly 1 and
  the cost of fidelity 1 is exactly \<open>exp 4.8\<close>; the cost is positive and strictly increasing
  in the fidelity; \<^verbatim>\<open>cost_callable\<close> is that cost of the last coordinate of a design point.
\<close>

theorem cost_model:
  "cost_func fidelity = exp (4.8 * fidelity)
   \<and> cost_func 0 = 1 \<and> cost_func 1 = exp 4.8
   \<and> 0 < cost_func fidelity
   \<and> (fidelity < fidelity' \<longrightarrow> cost_func fidelity < cost_func fidelity')
   \<and> cost_callable [xs @ [fidelity]] = [[exp (4.8 * fidelity)]]"
  by (simp add: cost_func_def cost_callable_def last_col_def)

theorem cost_model_witness:
  "cost_func (1 / 4) = exp (4.8 * (1 / 4)) \<and> cost_func 0 = 1 \<and> cost_func 1 = exp 4.8
   \<and> 0 < cost_func (1 / 4) \<and> (1::real) / 4 < 3 / 4 \<and> cost_func (1 / 4) < cost_func (3 / 4)
   \<and> cost_callable [[0, 1, 1 / 4]] = [[exp (4.8 * (1 / 4))]]"
  using cost_model [of "1 / 4" "3 / 4" "[0, 1]"] by simp

section \<open>The inverse transform\<close>

lemma den_pos:
  assumes "0 \<le> u" "u \<le> 1"
  shows "0 < exp (24 / 5 :: real) * (1 - u) + u"
proof -
  have "0 \<le> exp (24 / 5 :: real) * (1 - u)" using assms by simp
  moreover have "0 < exp (24 / 5 :: real) * (1 - u) \<or> 0 < u"
    using assms by (cases "u = 1") auto
  ultimately show ?thesis using assms by linarith
qed

lemma inv_transform_alt:
  assumes "0 \<le> u" "u \<le> 1"
  shows "inv_transform u = 1 - 5 / 24 * ln (exp (24 / 5) * (1 - u) + u)"
proof -
  let ?E = "exp (24 / 5 :: real)"
  let ?D = "?E * (1 - u) + u"
  have D: "0 < ?D" using assms by (rule den_pos)
  have eq: "?E * u - u - ?E = - ?D" by (simp add: algebra_simps)
  have "- ?E / (?E * u - u - ?E) = ?E / ?D" by (simp only: eq minus_divide_divide)
  then have "inv_transform u = 5 / 24 * ln (?E / ?D)" by (simp add: inv_transform_def)
  also have "ln (?E / ?D) = ln ?E - ln ?D" using D by (simp add: ln_divide_pos)
  also have "ln ?E = 24 / 5" by simp
  finally show ?thesis by (simp add: algebra_simps)
qed


lemma inv_transform_range:
  assumes "0 \<le> u" "u \<le> 1"
  shows "0 \<le> inv_transform u \<and> inv_transform u \<le> 1"
proof -
  let ?E = "exp (24 / 5 :: real)"
  let ?D = "?E * (1 - u) + u"
  have E: "1 < ?E" by simp
  have eq: "?D = ?E - u * (?E - 1)" by (simp add: algebra_simps)
  have lo: "0 \<le> u * (?E - 1)" using assms E by simp
  have "u * (?E - 1) \<le> 1 * (?E - 1)" using assms E by (intro mult_right_mono) simp_all
  then have hi: "u * (?E - 1) \<le> ?E - 1" by simp
  have D: "1 \<le> ?D" "?D \<le> ?E" using eq lo hi by linarith+
  from D have "0 \<le> ln ?D" by simp
  moreover from D have "ln ?D \<le> ln ?E" by (subst ln_le_cancel_iff) simp_all
  then have "ln ?D \<le> 24 / 5" by simp
  ultimately show ?thesis using assms by (simp add: inv_transform_alt)
qed

lemma inv_transform_strict_mono:
  assumes "0 \<le> u" "u < v" "v \<le> 1"
  shows "inv_transform u < inv_transform v"
proof -
  let ?E = "exp (24 / 5 :: real)"
  have E: "1 < ?E" by simp
  have Du: "0 < ?E * (1 - u) + u" using assms by (intro den_pos) simp_all
  have Dv: "0 < ?E * (1 - v) + v" using assms by (intro den_pos) simp_all
  have "u * (?E - 1) < v * (?E - 1)" using assms E by simp
  then have "?E * (1 - v) + v < ?E * (1 - u) + u" by (simp add: algebra_simps)
  then have "ln (?E * (1 - v) + v) < ln (?E * (1 - u) + u)" using Du Dv by simp
  moreover have "inv_transform u = 1 - 5 / 24 * ln (?E * (1 - u) + u)"
    using assms by (intro inv_transform_alt) simp_all
  moreover have "inv_transform v = 1 - 5 / 24 * ln (?E * (1 - v) + v)"
    using assms by (intro inv_transform_alt) simp_all
  ultimately show ?thesis by simp
qed

lemma inv_transform_closed_form:
  assumes "0 \<le> u" "u \<le> 1"
  shows "inv_transform u = - ln (1 - u * (1 - exp (- 4.8))) / 4.8"
proof -
  let ?E = "exp (24 / 5 :: real)"
  let ?D = "?E * (1 - u) + u"
  have D: "0 < ?D" using assms by (rule den_pos)
  have "exp (- 4.8 :: real) = 1 / ?E" by (simp add: exp_minus inverse_eq_divide)
  then have "1 - u * (1 - exp (- 4.8)) = ?D / ?E" by (simp add: field_simps)
  then have "ln (1 - u * (1 - exp (- 4.8))) = ln ?D - ln ?E" using D by (simp add: ln_divide_pos)
  then have "ln (1 - u * (1 - exp (- 4.8))) = ln ?D - 24 / 5" by simp
  then show ?thesis using assms by (simp add: inv_transform_alt)
qed

lemma spec_cdf_inv_transform:
  assumes "0 \<le> u" "u \<le> 1"
  shows "spec_cdf (inv_transform u) = u"
proof -
  let ?E = "exp (24 / 5 :: real)"
  let ?D = "?E * (1 - u) + u"
  have D: "0 < ?D" using assms by (rule den_pos)
  have E: "1 < ?E" by simp
  have "inv_transform u = 1 - 5 / 24 * ln ?D" using assms by (rule inv_transform_alt)
  then have "- 4.8 * inv_transform u = ln ?D - 24 / 5" by (simp add: algebra_simps)
  then have "exp (- 4.8 * inv_transform u) = exp (ln ?D - 24 / 5)" by simp
  also have "\<dots> = ?D / ?E" using D by (simp add: exp_diff)
  finally have 1: "1 - exp (- 4.8 * inv_transform u) = u * (?E - 1) / ?E" by (simp add: field_simps)
  have "exp (- 4.8 :: real) = 1 / ?E" by (simp add: exp_minus inverse_eq_divide)
  then have 2: "1 - exp (- 4.8 :: real) = (?E - 1) / ?E" by (simp add: field_simps)
  show ?thesis unfolding spec_cdf_def 1 2 using E by simp
qed

lemma inv_transform_spec_cdf:
  assumes "0 \<le> s" "s \<le> 1"
  shows "inv_transform (spec_cdf s) = s"
proof -
  let ?E = "exp (24 / 5 :: real)"
  have E: "1 < ?E" by simp
  have e: "exp (- 4.8 :: real) = 1 / ?E" by (simp add: exp_minus inverse_eq_divide)
  have den: "1 - exp (- 4.8 :: real) = (?E - 1) / ?E" unfolding e using E by (simp add: field_simps)
  let ?x = "exp (- 4.8 * s)"
  have x: "0 < ?x" "?x \<le> 1" using assms by simp_all
  have x': "1 / ?E \<le> ?x" unfolding e[symmetric] using assms by simp
  have c: "spec_cdf s = (1 - ?x) * ?E / (?E - 1)" unfolding spec_cdf_def den by simp
  have c0: "0 \<le> spec_cdf s" unfolding c using x E by simp
  have "(1 - ?x) * ?E \<le> ?E - 1" using x' E by (simp add: field_simps)
  then have c1: "spec_cdf s \<le> 1" unfolding c using E by (simp add: field_simps)
  have "?E * (1 - spec_cdf s) + spec_cdf s = ?E - spec_cdf s * (?E - 1)" by (simp add: algebra_simps)
  also have "spec_cdf s * (?E - 1) = (1 - ?x) * ?E" unfolding c using E by simp
  also have "?E - (1 - ?x) * ?E = ?x * ?E" by (simp add: algebra_simps)
  also have "\<dots> = exp (- 4.8 * s + 24 / 5)" by (rule exp_add [symmetric])
  finally have "ln (?E * (1 - spec_cdf s) + spec_cdf s) = - 4.8 * s + 24 / 5" by simp
  then show ?thesis using c0 c1 by (simp add: inv_transform_alt field_simps)
qed

text \<open>
  The distribution function has the density \<open>c / cost(s)\<close> on \<open>[0, 1]\<close>, with the
  normalizing constant \<open>c = 4.8 / (1 - e\<^sup>-\<^sup>4\<^sup>.\<^sup>8)\<close>.
\<close>

lemma spec_cdf_density:
  "(spec_cdf has_real_derivative (4.8 / (1 - exp (- 4.8))) * (1 / cost_func s)) (at s)"
proof -
  have "((\<lambda>s. (1 - exp (- 4.8 * s)) / (1 - exp (- 4.8)))
      has_real_derivative (0 - exp (- 4.8 * s) * (- 4.8)) / (1 - exp (- 4.8))) (at s)"
    by (intro derivative_intros DERIV_cdivide DERIV_diff DERIV_const) (auto intro!: derivative_eq_intros)
  moreover have "(0 - exp (- 4.8 * s) * (- 4.8)) / (1 - exp (- 4.8))
      = (4.8 / (1 - exp (- 4.8))) * (1 / cost_func s)"
    by (simp add: cost_func_def exp_minus field_simps)
  ultimately show ?thesis unfolding spec_cdf_def [abs_def] by simp
qed

lemma spec_cdf_ends: "spec_cdf 0 = 0" "spec_cdf 1 = 1"
  by (simp_all add: spec_cdf_def)

text \<open>
  C2: on \<open>[0, 1]\<close> the transform takes its values in \<open>[0, 1]\<close>, is strictly increasing,
  maps 0 to 0 and 1 to 1, equals \<open>- ln (1 - u (1 - e\<^sup>-\<^sup>4\<^sup>.\<^sup>8)) / 4.8\<close>, and is the inverse of the
  distribution function \<open>F(s) = (1 - e\<^sup>-\<^sup>4\<^sup>.\<^sup>8\<^sup>s) / (1 - e\<^sup>-\<^sup>4\<^sup>.\<^sup>8)\<close>, in both directions; \<open>F\<close> goes
  from 0 to 1 on \<open>[0, 1]\<close> with a density proportional to \<open>1 / cost\<close>.
\<close>

theorem inv_transform_inverse_cdf:
  assumes "0 \<le> u" "u \<le> 1"
  shows "0 \<le> inv_transform u \<and> inv_transform u \<le> 1
    \<and> (\<forall>v. u < v \<and> v \<le> 1 \<longrightarrow> inv_transform u < inv_transform v)
    \<and> inv_transform 0 = 0 \<and> inv_transform 1 = 1
    \<and> inv_transform u = - ln (1 - u * (1 - exp (- 4.8))) / 4.8
    \<and> spec_cdf (inv_transform u) = u
    \<and> inv_transform (spec_cdf u) = u
    \<and> spec_cdf 0 = 0 \<and> spec_cdf 1 = 1
    \<and> (spec_cdf has_real_derivative (4.8 / (1 - exp (- 4.8))) * (1 / cost_func u)) (at u)"
  using assms inv_transform_range [of u] inv_transform_strict_mono [of u]
    inv_transform_closed_form [of u] spec_cdf_inv_transform [of u] inv_transform_spec_cdf [of u]
    spec_cdf_ends spec_cdf_density [of u]
  by (simp add: inv_transform_def)

theorem inv_transform_inverse_cdf_witness:
  "(0::real) \<le> 1 / 2 \<and> (1::real) / 2 \<le> 1
    \<and> 0 \<le> inv_transform (1 / 2) \<and> inv_transform (1 / 2) \<le> 1
    \<and> inv_transform (1 / 2) < inv_transform (3 / 4)
    \<and> spec_cdf (inv_transform (1 / 2)) = 1 / 2
    \<and> inv_transform (spec_cdf (1 / 2)) = 1 / 2"
proof -
  have h: "(0::real) \<le> 1 / 2" "(1::real) / 2 \<le> 1" by simp_all
  note t = inv_transform_inverse_cdf [OF h]
  from t have r: "0 \<le> inv_transform (1 / 2)" "inv_transform (1 / 2) \<le> 1" by blast+
  from t have "\<forall>v. 1 / 2 < v \<and> v \<le> 1 \<longrightarrow> inv_transform (1 / 2) < inv_transform v"
    by blast
  then have m: "inv_transform (1 / 2) < inv_transform (3 / 4)" by simp
  from t have i: "spec_cdf (inv_transform (1 / 2)) = 1 / 2"
    "inv_transform (spec_cdf (1 / 2)) = 1 / 2" by blast+
  from h r m i show ?thesis by blast
qed

section \<open>The initial data stay within the budget\<close>

lemma rand_one: "rand rnd i (Suc 0) d = [map (rnd i) [0..<d]]"
  by (simp add: rand_def)

lemma last_map_upt: "0 < d \<Longrightarrow> last (map f [0..<d]) = f (d - 1)"
  by (cases d) simp_all

lemma new_point_eq:
  "0 < d \<Longrightarrow> new_point d rnd i =
     Inr [butlast (map (rnd i) [0..<d]) @ [inv_transform (rnd i (d - 1))]]"
  by (simp add: new_point_def rand_one map_last_col_def last_map_upt)

lemma new_point_0: "new_point 0 rnd i = Inl IndexError"
  by (simp add: new_point_def rand_def map_last_col_def)

lemma tsum_cost_callable_snoc:
  "tsum (cost_callable (X @ [xs @ [x]])) = tsum (cost_callable X) + cost_func x"
  by (simp add: cost_callable_def last_col_def tsum_def)

lemma tsum_cost_callable_Nil: "tsum (cost_callable []) = 0"
  by (simp add: cost_callable_def last_col_def tsum_def)

lemma tsum_cost_callable_single: "tsum (cost_callable [xs @ [x]]) = cost_func x"
  by (simp add: cost_callable_def last_col_def tsum_def)

lemma gen_init_loop_unfold:
  assumes "0 < d"
  shows "gen_init_loop d rnd L i t X =
    (if t < L then
       gen_init_loop d rnd L (Suc i) (t + cost_func (inv_transform (rnd i (d - 1))))
         (X @ [butlast (map (rnd i) [0..<d]) @ [inv_transform (rnd i (d - 1))]])
     else Some (Inr X))"
  by (subst gen_init_loop.simps) (simp add: new_point_eq [OF assms] tsum_cost_callable_single)

lemma drop_replicate_last: "drop k (replicate (Suc k) x) = [x]"
  by (induction k) simp_all

lemma last_col_ones:
  assumes "0 < d"
  shows "last_col (ones (Suc 0) d) = [[1]]"
proof -
  from assms obtain k where d: "d = Suc k" by (cases d) auto
  have "drop k (replicate (Suc k) (1::real)) = [1]"
    by (rule drop_replicate_last)
  then have "last_col [replicate (Suc k) 1] = [[1]]"
    by (simp add: last_col_def del: replicate_Suc drop_replicate)
  then show ?thesis by (simp add: ones_def d)
qed

lemma item_cost_ones:
  "item (cost_callable (ones (Suc 0) d)) = (if d = 0 then Inl RuntimeError else Inr (cost_func 1))"
proof (cases "d = 0")
  case True
  then show ?thesis by (simp add: item_def cost_callable_def ones_def last_col_def)
next
  case False
  then show ?thesis by (simp add: item_def cost_callable_def last_col_ones)
qed

lemma uniform_cost_ge_1:
  assumes "uniform rnd"
  shows "1 \<le> cost_func (inv_transform (rnd i j))"
proof -
  from assms have "0 \<le> rnd i j" "rnd i j \<le> 1" by (simp_all add: uniform_def less_imp_le)
  then have "0 \<le> inv_transform (rnd i j)" using inv_transform_range by blast
  then show ?thesis by (simp add: cost_func_def)
qed

lemma uniform_cost_less_full:
  assumes "uniform rnd"
  shows "cost_func (inv_transform (rnd i j)) < cost_func 1"
proof -
  from assms have "0 \<le> rnd i j" "rnd i j < 1" by (simp_all add: uniform_def)
  then have "inv_transform (rnd i j) < inv_transform 1"
    by (intro inv_transform_strict_mono) simp_all
  then show ?thesis by (simp add: cost_func_def inv_transform_def)
qed

lemma gen_init_loop_returns:
  assumes d: "0 < d" and c: "\<And>i. 1 \<le> cost_func (inv_transform (rnd i (d - 1)))"
    and inv: "t = tsum (cost_callable X)"
  shows "\<exists>X'. gen_init_loop d rnd L i t X = Some (Inr X')
           \<and> L \<le> tsum (cost_callable X')
           \<and> (t < L \<longrightarrow> X' \<noteq> [] \<and> tsum (cost_callable (butlast X')) < L)
           \<and> (L \<le> t \<longrightarrow> X' = X)"
  using inv
proof (induction "nat \<lceil>L - t\<rceil>" arbitrary: i t X rule: less_induct)
  case less
  show ?case
  proof (cases "t < L")
    case False
    then show ?thesis using less.prems by (simp add: gen_init_loop_unfold [OF d])
  next
    case True
    let ?c = "cost_func (inv_transform (rnd i (d - 1)))"
    let ?p = "butlast (map (rnd i) [0..<d]) @ [inv_transform (rnd i (d - 1))]"
    have c1: "1 \<le> ?c" by (rule c)
    have "\<lceil>L - (t + ?c)\<rceil> \<le> \<lceil>L - t - 1\<rceil>" using c1 by (intro ceiling_mono) simp
    also have "\<dots> = \<lceil>L - t\<rceil> - 1" by simp
    finally have "\<lceil>L - (t + ?c)\<rceil> < \<lceil>L - t\<rceil>" by simp
    moreover have "0 < \<lceil>L - t\<rceil>" using True by simp
    ultimately have m: "nat \<lceil>L - (t + ?c)\<rceil> < nat \<lceil>L - t\<rceil>" by simp
    have inv': "t + ?c = tsum (cost_callable (X @ [?p]))"
      using less.prems by (simp add: tsum_cost_callable_snoc)
    from less.hyps [OF m inv', of "Suc i"]
    obtain X' where X': "gen_init_loop d rnd L (Suc i) (t + ?c) (X @ [?p]) = Some (Inr X')"
      "L \<le> tsum (cost_callable X')"
      "t + ?c < L \<longrightarrow> X' \<noteq> [] \<and> tsum (cost_callable (butlast X')) < L"
      "L \<le> t + ?c \<longrightarrow> X' = X @ [?p]"
      by blast
    have "gen_init_loop d rnd L i t X = Some (Inr X')"
      using True X'(1) by (simp add: gen_init_loop_unfold [OF d, of rnd L i t X])
    moreover have "X' \<noteq> [] \<and> tsum (cost_callable (butlast X')) < L"
    proof (cases "t + ?c < L")
      case True
      with X'(3) show ?thesis by blast
    next
      case False
      with X'(4) have "X' = X @ [?p]" by simp
      then show ?thesis using True less.prems by simp
    qed
    ultimately show ?thesis using X'(2) True by simp
  qed
qed


text \<open>
  C1: for every budget \<open>n > 0\<close> (and uniform draws, on a problem with at least one
  dimension) \<^verbatim>\<open>gen_init_data(n)\<close> returns, and the total cost of the design points it
  returns is at most \<open>n \<cdot> cost(1)\<close>, indeed strictly less: the point dropped at the end is the
  one with which the running total reached the budget.
\<close>

theorem gen_init_data_within_budget:
  assumes "0 < n" and "uniform rnd" and "0 < length (fst (bounds BC))"
  shows "\<exists>train_x dropped.
           gen_init_data BC rnd n = Some (Inr (train_x, BC_call BC train_x))
           \<and> tsum (cost_callable train_x) \<le> n * cost_func 1
           \<and> tsum (cost_callable train_x) < n * cost_func 1
           \<and> n * cost_func 1 \<le> tsum (cost_callable (train_x @ [dropped]))"
proof -
  let ?d = "length (fst (bounds BC))"
  let ?L = "n * cost_func 1"
  have L: "(0::real) < ?L" using assms(1) by (simp add: cost_func_def)
  have c: "\<And>i. 1 \<le> cost_func (inv_transform (rnd i (?d - 1)))"
    using assms(2) by (rule uniform_cost_ge_1)
  have "(0::real) = tsum (cost_callable [])" by (simp add: tsum_cost_callable_Nil)
  from gen_init_loop_returns
    [where d = ?d and rnd = rnd and t = 0 and X = "[]" and L = ?L and i = 0, OF assms(3) c this]
  obtain X' where X': "gen_init_loop ?d rnd ?L 0 0 [] = Some (Inr X')"
    "?L \<le> tsum (cost_callable X')" "X' \<noteq> []" "tsum (cost_callable (butlast X')) < ?L"
    using L by blast
  have "gen_init_data BC rnd n = Some (Inr (butlast X', BC_call BC (butlast X')))"
    using assms(3) X'(1) by (simp add: gen_init_data_def Let_def item_cost_ones)
  moreover have "butlast X' @ [last X'] = X'" using X'(3) by simp
  ultimately show ?thesis using X'(2,4) by (intro exI [of _ "butlast X'"] exI [of _ "last X'"]) simp
qed

theorem gen_init_data_within_budget_witness:
  "0 < n_INIT \<and> uniform (\<lambda>i j. 1 / 2) \<and> 0 < length (fst (bounds toy_problem))
   \<and> (\<exists>train_x dropped.
         gen_init_data toy_problem (\<lambda>i j. 1 / 2) n_INIT
           = Some (Inr (train_x, BC_call toy_problem train_x))
         \<and> tsum (cost_callable train_x) \<le> n_INIT * cost_func 1
         \<and> tsum (cost_callable train_x) < n_INIT * cost_func 1
         \<and> n_INIT * cost_func 1 \<le> tsum (cost_callable (train_x @ [dropped])))"
proof -
  have h: "0 < n_INIT" "uniform (\<lambda>i j. 1 / 2)" "0 < length (fst (bounds toy_problem))"
    by (simp_all add: n_INIT_def uniform_def toy_problem_def)
  from h gen_init_data_within_budget [OF h] show ?thesis by blast
qed

lemma cost_inv_transform:
  assumes "0 \<le> u" "u \<le> 1"
  shows "cost_func (inv_transform u) = exp (24 / 5) / (exp (24 / 5) * (1 - u) + u)"
proof -
  let ?D = "exp (24 / 5 :: real) * (1 - u) + u"
  have D: "0 < ?D" using assms by (rule den_pos)
  have "4.8 * inv_transform u = 24 / 5 - ln ?D"
    using assms by (simp add: inv_transform_alt algebra_simps)
  then have "cost_func (inv_transform u) = exp (24 / 5 - ln ?D)" by (simp add: cost_func_def)
  also have "\<dots> = exp (24 / 5) / ?D" using D by (simp add: exp_diff)
  finally show ?thesis .
qed

lemma exp_24_5_le: "exp (24 / 5 :: real) \<le> 243"
proof -
  have "exp (24 / 5 :: real) \<le> exp (of_nat 5 * 1)" by simp
  also have "\<dots> = exp 1 ^ 5" by (rule exp_of_nat_mult)
  also have "\<dots> \<le> 3 ^ 5" by (intro power_mono exp_le) simp
  finally show ?thesis by simp
qed

text \<open>
  C4: when the cost of the first point drawn already reaches the whole budget
  \<open>n \<cdot> cost(1)\<close>, \<^verbatim>\<open>gen_init_data(n)\<close> returns normally, with no design point and no
  observation: no second point is drawn.
\<close>

theorem gen_init_data_first_draw_over_budget:
  assumes "new_point (length (fst (bounds BC))) rnd 0 = Inr new_x"
    and "n * cost_func 1 \<le> tsum (cost_callable new_x)"
  shows "gen_init_data BC rnd n = Some (Inr ([], []))"
proof -
  let ?d = "length (fst (bounds BC))"
  let ?L = "n * cost_func 1"
  let ?c = "cost_func (inv_transform (rnd 0 (?d - 1)))"
  let ?p = "butlast (map (rnd 0) [0..<?d]) @ [inv_transform (rnd 0 (?d - 1))]"
  have d: "0 < ?d" using assms(1) by (cases "?d = 0") (simp_all add: new_point_0)
  have "new_x = [?p]" using assms(1) by (simp add: new_point_eq [OF d])
  then have c: "?L \<le> ?c" using assms(2) by (simp add: tsum_cost_callable_single)
  have 1: "gen_init_loop ?d rnd ?L (Suc 0) (0 + ?c) ([] @ [?p]) = Some (Inr [?p])"
    using c by (simp add: gen_init_loop_unfold [OF d, of rnd ?L "Suc 0"])
  have "gen_init_loop ?d rnd ?L 0 0 [] = Some (Inr (if 0 < ?L then [?p] else []))"
    using 1 by (simp add: gen_init_loop_unfold [OF d, of rnd ?L 0 0 "[]"])
  then show ?thesis using d by (simp add: gen_init_data_def Let_def item_cost_ones BC_call_def)
qed

theorem gen_init_data_first_draw_over_budget_witness:
  "new_point (length (fst (bounds toy_problem))) (\<lambda>i j. 999 / 1000) 0
     = Inr [[999 / 1000, 999 / 1000, inv_transform (999 / 1000)]]
   \<and> 1 / 2 * cost_func 1
       \<le> tsum (cost_callable [[999 / 1000, 999 / 1000, inv_transform (999 / 1000)]])
   \<and> gen_init_data toy_problem (\<lambda>i j. 999 / 1000) (1 / 2) = Some (Inr ([], []))"
proof -
  let ?E = "exp (24 / 5 :: real)"
  let ?x = "[[999 / 1000, 999 / 1000, inv_transform (999 / 1000)]]"
  have 1: "new_point (length (fst (bounds toy_problem))) (\<lambda>i j. 999 / 1000) 0 = Inr ?x"
    by (simp add: toy_problem_def new_point_def rand_def map_last_col_def upt_rec)
  have "?E * (1 - 999 / 1000) + 999 / 1000 \<le> 2" using exp_24_5_le by simp
  moreover have "0 < ?E * (1 - 999 / 1000) + 999 / 1000" by (rule den_pos) simp_all
  ultimately have "?E / 2 \<le> ?E / (?E * (1 - 999 / 1000) + 999 / 1000)"
    by (intro divide_left_mono) simp_all
  then have "1 / 2 * cost_func 1 \<le> cost_func (inv_transform (999 / 1000))"
    by (simp add: cost_inv_transform) (simp add: cost_func_def)
  then have 2: "1 / 2 * cost_func 1 \<le> tsum (cost_callable ?x)"
    by (simp add: cost_callable_def last_col_def tsum_def)
  from 1 2 gen_init_data_first_draw_over_budget [OF 1 2] show ?thesis by blast
qed

section \<open>The loops: growth and reachable states\<close>

lemma loop_update_simps [simp]:
  "train_x (loop_update s x y) = train_x s @ x"
  "train_obj (loop_update s x y) = train_obj s @ y"
  "iteration (loop_update s x y) = Suc (iteration s)"
  "total_cost (loop_update s x y) = total_cost s + tsum (cost_callable x)"
  by (simp_all add: loop_update_def)

lemma sum_list_cost_pos: "0 \<le> sum_list (map cost_func r)"
  by (induction r) (simp_all add: cost_func_def add_nonneg_nonneg)

lemma tsum_cost_callable_nonneg: "0 \<le> tsum (cost_callable X)"
proof (induction X)
  case Nil
  show ?case by (simp add: tsum_cost_callable_Nil)
next
  case (Cons r X)
  have "tsum (cost_callable (r # X)) =
      sum_list (map cost_func (drop (length r - 1) r)) + tsum (cost_callable X)"
    by (simp add: tsum_def cost_callable_def last_col_def)
  then show ?case using Cons sum_list_cost_pos [of "drop (length r - 1) r"] by simp
qed

text \<open>
  C7: from one head of a loop to any later one the cost spent does not decrease, the data
  set does not get shorter, and the design points and observations already in it stay
  where they are, unchanged: the earlier data are a prefix of the later data. This holds for
  every helper \<open>get_obs\<close>, so for each of the three loops.
\<close>

theorem loop_state_grows:
  assumes "reaches get_obs budget s s'"
  shows "total_cost s \<le> total_cost s'
    \<and> length (train_x s) \<le> length (train_x s')
    \<and> length (train_obj s) \<le> length (train_obj s')
    \<and> prefix (train_x s) (train_x s')
    \<and> prefix (train_obj s) (train_obj s')"
  using assms
proof (induction rule: reaches.induct)
  case start
  show ?case by simp
next
  case (pass s' new_x new_obj)
  then show ?case using tsum_cost_callable_nonneg [of new_x]
    by (auto intro: prefix_order.trans)
qed

lemma optimization_loop_reaches:
  assumes "optimization_loop get_obs budget s = Some (Inr s')"
  shows "reaches get_obs budget s s' \<and> budget \<le> total_cost s'"
proof -
  have "\<forall>s0 s''. (Inr s' :: error + loop_state) = Inr s'' \<longrightarrow> reaches get_obs budget s0 s \<longrightarrow>
          reaches get_obs budget s0 s'' \<and> budget \<le> total_cost s''"
  proof (rule optimization_loop.raw_induct
      [where P = "\<lambda>g b s (r :: error + loop_state). \<forall>s0 s''. r = Inr s'' \<longrightarrow> reaches g b s0 s \<longrightarrow>
                    reaches g b s0 s'' \<and> b \<le> total_cost s''", OF _ assms])
    fix f g b s r
    assume IH: "\<And>g b s r. f g b s = Some r \<Longrightarrow>
          \<forall>s0 s''. r = Inr s'' \<longrightarrow> reaches g b s0 s \<longrightarrow>
            reaches g b s0 s'' \<and> b \<le> total_cost s''"
      and eq: "(if total_cost s < b then
          (case g s of Inl e \<Rightarrow> Some (Inl e)
           | Inr (new_x, new_obj) \<Rightarrow> f g b (loop_update s new_x new_obj))
        else Some (Inr s)) = Some r"
    show "\<forall>s0 s''. r = Inr s'' \<longrightarrow> reaches g b s0 s \<longrightarrow>
            reaches g b s0 s'' \<and> b \<le> total_cost s''"
    proof (intro impI allI)
      fix s0 s''
      assume r: "r = Inr s''" and re: "reaches g b s0 s"
      show "reaches g b s0 s'' \<and> b \<le> total_cost s''"
      proof (cases "total_cost s < b")
        case False
        with eq r re show ?thesis by simp
      next
        case True
        with eq r obtain new_x new_obj where g: "g s = Inr (new_x, new_obj)"
          and f: "f g b (loop_update s new_x new_obj) = Some (Inr s'')"
          by (auto split: sum.splits)
        from re True g have "reaches g b s0 (loop_update s new_x new_obj)" by (rule reaches.pass)
        with IH [OF f] show ?thesis by blast
      qed
    qed
  qed
  then show ?thesis using reaches.start [of get_obs budget s] by blast
qed

lemma optimization_loop_terminates:
  assumes step: "\<And>s. \<exists>x y. get_obs s = Inr (x, y) \<and> 1 \<le> tsum (cost_callable x)"
  shows "\<exists>s'. optimization_loop get_obs budget s = Some (Inr s')
           \<and> budget \<le> total_cost s'
           \<and> iteration s' \<le> iteration s + nat \<lceil>budget - total_cost s\<rceil>"
proof (induction "nat \<lceil>budget - total_cost s\<rceil>" arbitrary: s rule: less_induct)
  case less
  show ?case
  proof (cases "total_cost s < budget")
    case False
    then show ?thesis by (subst optimization_loop.simps) simp
  next
    case True
    from step obtain x y where g: "get_obs s = Inr (x, y)" and c: "1 \<le> tsum (cost_callable x)"
      by blast
    let ?s = "loop_update s x y"
    have "\<lceil>budget - total_cost ?s\<rceil> \<le> \<lceil>budget - total_cost s - 1\<rceil>"
      using c by (intro ceiling_mono) simp
    also have "\<dots> = \<lceil>budget - total_cost s\<rceil> - 1" by simp
    finally have le: "\<lceil>budget - total_cost ?s\<rceil> \<le> \<lceil>budget - total_cost s\<rceil> - 1" .
    have pos: "0 < \<lceil>budget - total_cost s\<rceil>" using True by simp
    from le pos have m: "nat \<lceil>budget - total_cost ?s\<rceil> < nat \<lceil>budget - total_cost s\<rceil>"
      by simp
    from less [OF m] obtain s' where s': "optimization_loop get_obs budget ?s = Some (Inr s')"
      "budget \<le> total_cost s'"
      "iteration s' \<le> iteration ?s + nat \<lceil>budget - total_cost ?s\<rceil>"
      by blast
    have "optimization_loop get_obs budget s = Some (Inr s')"
      using True g s'(1) by (subst optimization_loop.simps) simp
    moreover have "iteration ?s = Suc (iteration s)" by simp
    then have "iteration s' \<le> iteration s + nat \<lceil>budget - total_cost s\<rceil>"
      using s'(3) m by linarith
    ultimately show ?thesis using s'(2) by blast
  qed
qed

section \<open>What the helpers return\<close>

lemma unnormalize_row_standard:
  "length r = d \<Longrightarrow>
   map (\<lambda>(x, l, u). x * (u - l) + l) (zip r (zip (replicate d 0) (replicate d 1))) = (r :: row)"
  by (rule nth_equalityI) simp_all

lemma unnormalize_standard:
  assumes "\<forall>r\<in>set X. length r = d"
  shows "unnormalize X (standard_bounds d) = X"
proof -
  have "\<And>r. r \<in> set X \<Longrightarrow>
      map (\<lambda>(x, l, u). x * (u - l) + l) (zip r (zip (replicate d 0) (replicate d 1))) = r"
    using assms by (intro unnormalize_row_standard) simp
  then show ?thesis
    unfolding unnormalize_def standard_bounds_def fst_conv snd_conv by (rule map_idI)
qed

lemma length_unnormalize: "length (unnormalize X b) = length X"
  by (simp add: unnormalize_def)

lemma last_unnormalize_row:
  assumes "length r = length l" "length r = length u" "r \<noteq> []"
  shows "last (map (\<lambda>(x, l, u). x * (u - l) + l) (zip r (zip l u)))
           = last r * (last u - last l) + last l"
proof -
  from assms have l: "l \<noteq> []" and u: "u \<noteq> []" by auto
  from assms have z: "zip r (zip l u) \<noteq> []" by (cases r; cases l; cases u) auto
  have n: "length (zip r (zip l u)) = length r" using assms by simp
  show ?thesis using assms z l u
    by (simp add: last_conv_nth n)
qed

lemma map_last_col_Inr:
  assumes "\<forall>r\<in>set X. r \<noteq> []"
  shows "map_last_col f X = Inr (map (\<lambda>r. butlast r @ [f (last r)]) X)"
  using assms by (auto simp: map_last_col_def list_ex_iff)

lemma map2_append_map: "map2 (@) (map f X) (map g X) = map (\<lambda>r. f r @ g r) X"
  by (induction X) simp_all

lemma get_objective_momf_Inr:
  assumes "\<forall>r\<in>set X. r \<noteq> []"
  shows "get_objective_momf BC X = Inr (map (\<lambda>r. evaluate BC r @ [last r]) X)"
proof -
  have "get_last X = Inr (map last X)" using assms by (auto simp: get_last_def list_ex_iff)
  then have "fid_obj X = Inr (map last X)" by (simp add: fid_obj_def)
  moreover have "map2 (@) (map (evaluate BC) X) (map (\<lambda>f. [f]) (map last X))
      = map (\<lambda>r. evaluate BC r @ [last r]) X"
    using map2_append_map [of "evaluate BC" X "\<lambda>r. [last r]"] by (simp add: comp_def)
  ultimately show ?thesis by (simp add: get_objective_momf_def BC_call_def cat_cols_def)
qed

lemma cat_cols_ones:
  assumes "length X = q"
  shows "cat_cols X (ones q (Suc 0)) = Inr (map (\<lambda>r. r @ [1]) X)"
proof -
  have "map2 (@) X (replicate (length X) [1::real]) = map (\<lambda>r. r @ [1]) X"
    by (induction X) simp_all
  then show ?thesis using assms by (simp add: cat_cols_def ones_def)
qed

lemma cat_cols_ones_Inr:
  "cat_cols X (ones q (Suc 0)) = Inr Z \<Longrightarrow> Z = map (\<lambda>r. r @ [1]) X \<and> length X = q"
  using cat_cols_ones [of X q] by (auto simp: cat_cols_def ones_def split: if_splits)

lemma tsum_cost_callable_rows:
  assumes "\<forall>r\<in>set X. r \<noteq> []"
  shows "tsum (cost_callable X) = sum_list (map (\<lambda>r. cost_func (last r)) X)"
  using assms
proof (induction X)
  case Nil
  show ?case by (simp add: tsum_cost_callable_Nil)
next
  case (Cons r X)
  then have "r \<noteq> []" by simp
  then obtain xs x where r: "r = xs @ [x]" by (cases r rule: rev_cases) auto
  have "tsum (cost_callable (r # X)) = cost_func x + tsum (cost_callable X)"
    by (simp add: r tsum_def cost_callable_def last_col_def)
  then show ?case using Cons by (simp add: r)
qed

lemma tsum_cost_callable_ge_length:
  assumes "\<forall>r\<in>set X. r \<noteq> [] \<and> 0 \<le> last r"
  shows "real (length X) \<le> tsum (cost_callable X)"
proof -
  have "real (length X) \<le> sum_list (map (\<lambda>r. cost_func (last r)) X)"
    using assms
  proof (induction X)
    case Nil
    show ?case by simp
  next
    case (Cons r X)
    then have "1 \<le> cost_func (last r)" by (simp add: cost_func_def)
    moreover have "real (length X) \<le> sum_list (map (\<lambda>r. cost_func (last r)) X)"
      using Cons by simp
    ultimately show ?case by simp
  qed
  then show ?thesis using assms by (simp add: tsum_cost_callable_rows)
qed

lemma in_standard_bounds:
  assumes "in_bounds (standard_bounds d) r"
  shows "length r = d \<and> (\<forall>x\<in>set r. 0 \<le> x \<and> x \<le> 1)"
proof -
  from assms have len: "length r = d"
    and lo: "list_all2 (\<le>) (replicate d 0) r" and hi: "list_all2 (\<le>) r (replicate d 1)"
    by (simp_all add: in_bounds_def standard_bounds_def)
  have "\<forall>x\<in>set r. 0 \<le> x \<and> x \<le> 1"
  proof
    fix x assume "x \<in> set r"
    then obtain i where i: "i < length r" "r ! i = x" by (auto simp: in_set_conv_nth)
    from list_all2_nthD2 [OF lo i(1)] i len have 0: "0 \<le> r ! i" by simp
    from list_all2_nthD [OF hi i(1)] i len have 1: "r ! i \<le> 1" by simp
    from 0 1 i show "0 \<le> x \<and> x \<le> 1" by simp
  qed
  with len show ?thesis by simp
qed

lemma standard_bounds_ordered: "list_all2 (\<le>) (fst (standard_bounds d)) (snd (standard_bounds d))"
  by (simp add: standard_bounds_def list_all2_conv_all_nth)

lemma take_standard_bounds: "take_bounds k (standard_bounds d) = standard_bounds (min k d)"
  by (simp add: take_bounds_def standard_bounds_def min.commute)

lemma contract_standard:
  assumes "acqf_contract f" "f (standard_bounds d) q = (candidates, vals)"
  shows "length candidates = q \<and> (\<forall>r\<in>set candidates. length r = d \<and> (\<forall>x\<in>set r. 0 \<le> x \<and> x \<le> 1))"
proof -
  from assms(1) standard_bounds_ordered [of d]
  have "length (fst (f (standard_bounds d) q)) = q
      \<and> list_all (in_bounds (standard_bounds d)) (fst (f (standard_bounds d) q))"
    unfolding acqf_contract_def by blast
  with assms(2) show ?thesis by (auto simp: list_all_iff dest: in_standard_bounds)
qed

lemma optimize_MOMF_result:
  assumes "optimize_acqf (standard_bounds d) q = (candidates, vals)" "0 < d"
    and "\<forall>r\<in>set candidates. length r = d"
  shows "optimize_MOMF_and_get_obs BC optimize_acqf (standard_bounds d) q =
     (let new_x = (if vals = 0 then map (\<lambda>r. butlast r @ [0]) candidates else candidates)
      in Inr (new_x, map (\<lambda>r. evaluate BC r @ [last r]) new_x))"
proof -
  let ?c = "if vals = 0 then map (\<lambda>r. butlast r @ [0]) candidates else candidates"
  have ne: "\<forall>r\<in>set candidates. r \<noteq> []" using assms(2,3) by auto
  have 1: "(if vals = 0 then map_last_col (\<lambda>_. 0) candidates else Inr candidates) = Inr ?c"
    using ne by (simp add: map_last_col_Inr)
  have len: "\<forall>r\<in>set ?c. length r = d" using assms(2,3) by auto
  then have 2: "unnormalize ?c (standard_bounds d) = ?c" by (rule unnormalize_standard)
  have "\<forall>r\<in>set ?c. r \<noteq> []" using len assms(2) by auto
  then have 3: "get_objective_momf BC ?c = Inr (map (\<lambda>r. evaluate BC r @ [last r]) ?c)"
    by (rule get_objective_momf_Inr)
  show ?thesis
    unfolding optimize_MOMF_and_get_obs_def assms(1) Let_def prod.case 1 sum.case 2 3 ..
qed

lemma optimize_HVKG_result:
  assumes "optimize_acqf (standard_bounds d) q = (candidates, vals)" "0 < d"
    and "\<forall>r\<in>set candidates. length r = d"
  shows "optimize_HVKG_and_get_obs BC optimize_acqf (standard_bounds d) q =
     (let c = (if vals = 0 then map (\<lambda>r. butlast r @ [0]) candidates else candidates);
          new_x = unnormalize c (bounds BC)
      in Inr (new_x, BC_call BC new_x))"
proof -
  let ?c = "if vals = 0 then map (\<lambda>r. butlast r @ [0]) candidates else candidates"
  have ne: "\<forall>r\<in>set candidates. r \<noteq> []" using assms(2,3) by auto
  have 1: "(if vals = 0 then map_last_col (\<lambda>_. 0) candidates else Inr candidates) = Inr ?c"
    using ne by (simp add: map_last_col_Inr)
  show ?thesis
    unfolding optimize_HVKG_and_get_obs_def assms(1) Let_def prod.case 1 sum.case ..
qed

lemma optimize_qNEHVI_result:
  assumes "optimize_acqf b q = (candidates, vals)" "length candidates = q"
  shows "optimize_qNEHVI_and_get_obs BC optimize_acqf b q =
     (let new_x = map (\<lambda>r. r @ [1]) (unnormalize candidates b)
      in Inr (new_x, BC_call BC new_x))"
proof -
  have "cat_cols (unnormalize candidates b) (ones q (Suc 0))
      = Inr (map (\<lambda>r. r @ [1]) (unnormalize candidates b))"
    using assms(2) by (intro cat_cols_ones) (simp add: length_unnormalize)
  then show ?thesis
    unfolding optimize_qNEHVI_and_get_obs_def assms(1) Let_def prod.case by simp
qed

lemma optimize_qNEHVI_Inr:
  assumes "optimize_qNEHVI_and_get_obs BC optimize_acqf b q = Inr (new_x, new_obj)"
  shows "(\<forall>r\<in>set new_x. r \<noteq> [] \<and> last r = 1) \<and> new_obj = BC_call BC new_x"
proof -
  obtain candidates vals where a: "optimize_acqf b q = (candidates, vals)" by (cases "optimize_acqf b q")
  from assms obtain Z where Z: "cat_cols (unnormalize candidates b) (ones q (Suc 0)) = Inr Z"
    and eq: "new_x = Z" "new_obj = BC_call BC Z"
    unfolding optimize_qNEHVI_and_get_obs_def a Let_def prod.case by (auto split: sum.splits)
  from cat_cols_ones_Inr [OF Z] have "Z = map (\<lambda>r. r @ [1]) (unnormalize candidates b)" by simp
  with eq show ?thesis by auto
qed

lemma midpoint_contract: "acqf_contract midpoint_acqf"
proof -
  have "in_bounds b (map2 (\<lambda>l u. (l + u) / 2) (fst b) (snd b))"
    if o: "list_all2 (\<le>) (fst b) (snd b)" for b :: bounds
  proof -
    from o have len: "length (fst b) = length (snd b)" by (rule list_all2_lengthD)
    have le: "fst b ! i \<le> snd b ! i" if "i < length (fst b)" for i
      using list_all2_nthD [OF o that] .
    show ?thesis
      unfolding in_bounds_def using len le
      by (auto simp: list_all2_conv_all_nth field_simps)
  qed
  then show ?thesis
    by (simp add: acqf_contract_def midpoint_acqf_def list_all_iff)
qed

lemma midpoint_strategy_contract: "acqf_contract (midpoint_strategy s)"
  by (simp add: midpoint_strategy_def midpoint_contract)

lemma zeroed_rows:
  assumes "\<forall>r\<in>set c. length r = d \<and> (\<forall>x\<in>set r. 0 \<le> x \<and> x \<le> (1::real))" "0 < d"
  shows "\<forall>r\<in>set (if vals = (0::real) then map (\<lambda>r. butlast r @ [0]) c else c).
           length r = d \<and> r \<noteq> [] \<and> 0 \<le> last r \<and> (vals = 0 \<longrightarrow> last r = 0)"
proof
  fix r assume r: "r \<in> set (if vals = 0 then map (\<lambda>r. butlast r @ [0]) c else c)"
  show "length r = d \<and> r \<noteq> [] \<and> 0 \<le> last r \<and> (vals = 0 \<longrightarrow> last r = 0)"
  proof (cases "vals = 0")
    case True
    with r obtain r' where "r' \<in> set c" "r = butlast r' @ [0]" by auto
    with assms True show ?thesis by auto
  next
    case False
    with r have rc: "r \<in> set c" by simp
    with assms have len: "length r = d" and ne: "r \<noteq> []" by auto
    from ne have "last r \<in> set r" by simp
    with rc assms have "0 \<le> last r" by blast
    with len ne False show ?thesis by simp
  qed
qed

lemma momf_step_ok:
  assumes "0 < dim BC" "acqf_contract (acq s)"
  shows "\<exists>x y. momf_get_obs BC acq s = Inr (x, y) \<and> 1 \<le> tsum (cost_callable x)"
proof -
  let ?d = "dim BC"
  obtain c vals where a: "acq s (standard_bounds ?d) BATCH_SIZE = (c, vals)"
    by (cases "acq s (standard_bounds ?d) BATCH_SIZE")
  from contract_standard [where f = "acq s", OF assms(2) a]
  have len: "length c = BATCH_SIZE"
    and rows: "\<forall>r\<in>set c. length r = ?d \<and> (\<forall>x\<in>set r. 0 \<le> x \<and> x \<le> 1)" by simp_all
  let ?x = "if vals = 0 then map (\<lambda>r. butlast r @ [0]) c else c"
  from rows have "\<forall>r\<in>set c. length r = ?d" by simp
  from optimize_MOMF_result [where optimize_acqf = "acq s" and BC = BC, OF a assms(1) this]
  have res: "momf_get_obs BC acq s = Inr (?x, map (\<lambda>r. evaluate BC r @ [last r]) ?x)"
    by (simp add: momf_get_obs_def Let_def)
  from zeroed_rows [OF rows assms(1), of vals]
  have "\<forall>r\<in>set ?x. r \<noteq> [] \<and> 0 \<le> last r" by blast
  then have "real (length ?x) \<le> tsum (cost_callable ?x)" by (rule tsum_cost_callable_ge_length)
  moreover have "length ?x = 1" using len by (simp add: BATCH_SIZE_def)
  ultimately have "1 \<le> tsum (cost_callable ?x)" by simp
  with res show ?thesis by blast
qed

lemma unnormalize_rows:
  assumes "\<forall>r\<in>set c. length r = d \<and> r \<noteq> []"
    and "length (fst b) = d" "length (snd b) = d"
  shows "\<forall>r\<in>set (unnormalize c b). r \<noteq> [] \<and>
     (\<exists>r'\<in>set c. last r = last r' * (last (snd b) - last (fst b)) + last (fst b))"
proof
  fix r assume "r \<in> set (unnormalize c b)"
  then obtain r' where r': "r' \<in> set c"
    and r: "r = map (\<lambda>(x, l, u). x * (u - l) + l) (zip r' (zip (fst b) (snd b)))"
    by (auto simp: unnormalize_def)
  from r' assms have l: "length r' = length (fst b)" "length r' = length (snd b)" "r' \<noteq> []"
    by auto
  from last_unnormalize_row [OF l]
  have "last r = last r' * (last (snd b) - last (fst b)) + last (fst b)" by (simp add: r)
  moreover have "length r = length r'" using l by (simp add: r)
  ultimately show "r \<noteq> [] \<and>
     (\<exists>r'\<in>set c. last r = last r' * (last (snd b) - last (fst b)) + last (fst b))"
    using r' l(3) by auto
qed

lemma hvkg_step_ok:
  assumes "0 < dim BC" "acqf_contract (acq s)"
    and "length (fst (bounds BC)) = dim BC" "length (snd (bounds BC)) = dim BC"
    and "0 \<le> last (fst (bounds BC))" "last (fst (bounds BC)) \<le> last (snd (bounds BC))"
  shows "\<exists>x y. hvkg_get_obs BC acq s = Inr (x, y) \<and> 1 \<le> tsum (cost_callable x)"
proof -
  let ?d = "dim BC"
  obtain c vals where a: "acq s (standard_bounds ?d) BATCH_SIZE = (c, vals)"
    by (cases "acq s (standard_bounds ?d) BATCH_SIZE")
  from contract_standard [where f = "acq s", OF assms(2) a]
  have len: "length c = BATCH_SIZE"
    and rows: "\<forall>r\<in>set c. length r = ?d \<and> (\<forall>x\<in>set r. 0 \<le> x \<and> x \<le> 1)" by simp_all
  let ?c = "if vals = 0 then map (\<lambda>r. butlast r @ [0]) c else c"
  let ?x = "unnormalize ?c (bounds BC)"
  from rows have "\<forall>r\<in>set c. length r = ?d" by simp
  from optimize_HVKG_result [where optimize_acqf = "acq s" and BC = BC, OF a assms(1) this]
  have res: "hvkg_get_obs BC acq s = Inr (?x, BC_call BC ?x)"
    by (simp add: hvkg_get_obs_def Let_def)
  note z = zeroed_rows [OF rows assms(1), of vals]
  then have "\<forall>r\<in>set ?c. length r = ?d \<and> r \<noteq> []" by blast
  note u = unnormalize_rows [OF this assms(3,4)]
  have "\<forall>r\<in>set ?x. r \<noteq> [] \<and> 0 \<le> last r"
  proof
    fix r assume "r \<in> set ?x"
    with u obtain r' where ne: "r \<noteq> []" and r': "r' \<in> set ?c"
      and l: "last r = last r' * (last (snd (bounds BC)) - last (fst (bounds BC)))
                + last (fst (bounds BC))" by blast
    from z r' have "0 \<le> last r'" by blast
    then have "0 \<le> last r' * (last (snd (bounds BC)) - last (fst (bounds BC)))"
      using assms(6) by simp
    with l assms(5) ne show "r \<noteq> [] \<and> 0 \<le> last r" by simp
  qed
  then have "real (length ?x) \<le> tsum (cost_callable ?x)" by (rule tsum_cost_callable_ge_length)
  moreover have "length ?x = 1" using len by (simp add: BATCH_SIZE_def length_unnormalize)
  ultimately have "1 \<le> tsum (cost_callable ?x)" by simp
  with res show ?thesis by blast
qed

lemma qnehvi_step_ok:
  assumes "acqf_contract (acq s)"
  shows "\<exists>x y. qnehvi_get_obs BC acq s = Inr (x, y) \<and> 1 \<le> tsum (cost_callable x)"
proof -
  let ?b = "take_bounds 2 (standard_bounds (dim BC))"
  obtain c vals where a: "acq s ?b BATCH_SIZE = (c, vals)" by (cases "acq s ?b BATCH_SIZE")
  have "acq s (standard_bounds (min 2 (dim BC))) BATCH_SIZE = (c, vals)"
    using a by (simp add: take_standard_bounds)
  from contract_standard [where f = "acq s", OF assms this] have len: "length c = BATCH_SIZE" by simp
  let ?x = "map (\<lambda>r. r @ [1]) (unnormalize c ?b)"
  from optimize_qNEHVI_result [where optimize_acqf = "acq s" and BC = BC, OF a len]
  have res: "qnehvi_get_obs BC acq s = Inr (?x, BC_call BC ?x)"
    by (simp add: qnehvi_get_obs_def Let_def)
  have "\<forall>r\<in>set ?x. r \<noteq> [] \<and> 0 \<le> last r" by auto
  then have "real (length ?x) \<le> tsum (cost_callable ?x)" by (rule tsum_cost_callable_ge_length)
  moreover have "length ?x = 1" using len by (simp add: BATCH_SIZE_def length_unnormalize)
  ultimately have "1 \<le> tsum (cost_callable ?x)" by simp
  with res show ?thesis by blast
qed

section \<open>The loops spend their budget\<close>

text \<open>
  C6: on a problem with at least one dimension whose fidelity range starts at or above 0,
  and with optimizers that keep their contract, each of the three loops returns: it leaves
  the loop in a state whose cost is at least \<open>EVAL_BUDGET \<cdot> cost(1)\<close>, after at most
  \<open>\<lceil>budget - cost at the start\<rceil>\<close> passes, since every pass adds at least \<open>cost(0) = 1\<close>.
\<close>

theorem loops_terminate:
  assumes "0 < dim BC"
    and "length (fst (bounds BC)) = dim BC" "length (snd (bounds BC)) = dim BC"
    and "0 \<le> last (fst (bounds BC))" "last (fst (bounds BC)) \<le> last (snd (bounds BC))"
    and "\<forall>s. acqf_contract (acq_momf s)"
    and "\<forall>s. acqf_contract (acq_kg s)"
    and "\<forall>s. acqf_contract (acq_qnehvi s)"
  shows "(\<exists>s'. momf_loop SMOKE_TEST BC acq_momf s = Some (Inr s')
            \<and> EVAL_BUDGET SMOKE_TEST * cost_func 1 \<le> total_cost s'
            \<and> iteration s' \<le> iteration s + nat \<lceil>EVAL_BUDGET SMOKE_TEST * cost_func 1 - total_cost s\<rceil>)
       \<and> (\<exists>s'. hvkg_loop SMOKE_TEST BC acq_kg s = Some (Inr s')
            \<and> EVAL_BUDGET SMOKE_TEST * cost_func 1 \<le> total_cost s'
            \<and> iteration s' \<le> iteration s + nat \<lceil>EVAL_BUDGET SMOKE_TEST * cost_func 1 - total_cost s\<rceil>)
       \<and> (\<exists>s'. qnehvi_loop SMOKE_TEST BC acq_qnehvi s = Some (Inr s')
            \<and> EVAL_BUDGET SMOKE_TEST * cost_func 1 \<le> total_cost s'
            \<and> iteration s' \<le> iteration s + nat \<lceil>EVAL_BUDGET SMOKE_TEST * cost_func 1 - total_cost s\<rceil>)
       \<and> (\<forall>s. \<exists>x y. momf_get_obs BC acq_momf s = Inr (x, y) \<and> cost_func 0 \<le> tsum (cost_callable x))
       \<and> (\<forall>s. \<exists>x y. hvkg_get_obs BC acq_kg s = Inr (x, y) \<and> cost_func 0 \<le> tsum (cost_callable x))
       \<and> (\<forall>s. \<exists>x y. qnehvi_get_obs BC acq_qnehvi s = Inr (x, y) \<and> cost_func 0 \<le> tsum (cost_callable x))
       \<and> cost_func 0 = 1"
proof -
  have m: "\<exists>x y. momf_get_obs BC acq_momf s = Inr (x, y) \<and> 1 \<le> tsum (cost_callable x)" for s
    using assms(1,6) by (intro momf_step_ok) simp_all
  have k: "\<exists>x y. hvkg_get_obs BC acq_kg s = Inr (x, y) \<and> 1 \<le> tsum (cost_callable x)" for s
    using assms(1-5,7) by (intro hvkg_step_ok) simp_all
  have q: "\<exists>x y. qnehvi_get_obs BC acq_qnehvi s = Inr (x, y) \<and> 1 \<le> tsum (cost_callable x)" for s
    using assms(8) by (intro qnehvi_step_ok) simp_all
  have c0: "cost_func 0 = 1" by (simp add: cost_func_def)
  show ?thesis
    unfolding momf_loop_def hvkg_loop_def qnehvi_loop_def c0
    using optimization_loop_terminates [of "momf_get_obs BC acq_momf", OF m]
      optimization_loop_terminates [of "hvkg_get_obs BC acq_kg", OF k]
      optimization_loop_terminates [of "qnehvi_get_obs BC acq_qnehvi", OF q]
      m k q
    by blast
qed

lemma toy_problem_simps:
  "dim toy_problem = 3" "bounds toy_problem = ([0, 0, 0], [1, 1, 1])"
  "evaluate toy_problem x = [sum_list x, 3 - sum_list x]"
  by (simp_all add: toy_problem_def)

theorem loops_terminate_witness:
  "0 < dim toy_problem
   \<and> length (fst (bounds toy_problem)) = dim toy_problem
   \<and> length (snd (bounds toy_problem)) = dim toy_problem
   \<and> 0 \<le> last (fst (bounds toy_problem))
   \<and> last (fst (bounds toy_problem)) \<le> last (snd (bounds toy_problem))
   \<and> (\<forall>s. acqf_contract (midpoint_strategy s))
   \<and> (\<exists>s'. momf_loop True toy_problem midpoint_strategy (loop_init [] []) = Some (Inr s')
         \<and> EVAL_BUDGET True * cost_func 1 \<le> total_cost s')
   \<and> (\<exists>s'. hvkg_loop True toy_problem midpoint_strategy (loop_init [] []) = Some (Inr s')
         \<and> EVAL_BUDGET True * cost_func 1 \<le> total_cost s')
   \<and> (\<exists>s'. qnehvi_loop True toy_problem midpoint_strategy (loop_init [] []) = Some (Inr s')
         \<and> EVAL_BUDGET True * cost_func 1 \<le> total_cost s')"
proof -
  have h: "0 < dim toy_problem"
    "length (fst (bounds toy_problem)) = dim toy_problem"
    "length (snd (bounds toy_problem)) = dim toy_problem"
    "0 \<le> last (fst (bounds toy_problem))"
    "last (fst (bounds toy_problem)) \<le> last (snd (bounds toy_problem))"
    by (simp_all add: toy_problem_simps)
  have c: "\<forall>s. acqf_contract (midpoint_strategy s)" by (simp add: midpoint_strategy_contract)
  from h c loops_terminate [OF h c c c, of True "loop_init [] []"] show ?thesis by blast
qed

section \<open>Zero acquisition value\<close>

text \<open>
  C5, as amended: in the helpers of the MOMF and the MF-HVKG loop, when the optimizer
  returns the acquisition value 0, every design point that is observed has fidelity
  exactly 0 (for MF-HVKG: on a problem whose fidelity range starts at 0), and the
  observations are those of these points.
\<close>

theorem zero_acquisition_value_sets_fidelity_zero:
  assumes "0 < dim BC"
    and "optimize_acqf (standard_bounds (dim BC)) q = (candidates, 0)"
    and "\<forall>r\<in>set candidates. length r = dim BC"
  shows "(\<exists>new_x new_obj.
            optimize_MOMF_and_get_obs BC optimize_acqf (standard_bounds (dim BC)) q
              = Inr (new_x, new_obj)
            \<and> length new_x = length candidates
            \<and> (\<forall>r\<in>set new_x. r \<noteq> [] \<and> last r = 0)
            \<and> get_objective_momf BC new_x = Inr new_obj)
       \<and> (length (fst (bounds BC)) = dim BC \<and> length (snd (bounds BC)) = dim BC
            \<and> last (fst (bounds BC)) = 0 \<longrightarrow>
          (\<exists>new_x.
            optimize_HVKG_and_get_obs BC optimize_acqf (standard_bounds (dim BC)) q
              = Inr (new_x, BC_call BC new_x)
            \<and> length new_x = length candidates
            \<and> (\<forall>r\<in>set new_x. r \<noteq> [] \<and> last r = 0)))"
proof -
  let ?d = "dim BC"
  let ?c = "map (\<lambda>r. butlast r @ [0::real]) candidates"
  have c: "\<forall>r\<in>set ?c. length r = ?d \<and> r \<noteq> [] \<and> last r = 0" using assms(1,3) by auto
  have "optimize_MOMF_and_get_obs BC optimize_acqf (standard_bounds ?d) q
      = Inr (?c, map (\<lambda>r. evaluate BC r @ [last r]) ?c)"
    using optimize_MOMF_result [where optimize_acqf = optimize_acqf and BC = BC, OF assms(2,1,3)]
    by (simp add: Let_def)
  moreover have "get_objective_momf BC ?c = Inr (map (\<lambda>r. evaluate BC r @ [last r]) ?c)"
    using c by (intro get_objective_momf_Inr) blast
  ultimately have momf: "\<exists>new_x new_obj.
            optimize_MOMF_and_get_obs BC optimize_acqf (standard_bounds ?d) q = Inr (new_x, new_obj)
            \<and> length new_x = length candidates
            \<and> (\<forall>r\<in>set new_x. r \<noteq> [] \<and> last r = 0)
            \<and> get_objective_momf BC new_x = Inr new_obj"
    using c by (intro exI [of _ ?c] exI [of _ "map (\<lambda>r. evaluate BC r @ [last r]) ?c"]) simp
  have hvkg: "\<exists>new_x.
            optimize_HVKG_and_get_obs BC optimize_acqf (standard_bounds ?d) q
              = Inr (new_x, BC_call BC new_x)
            \<and> length new_x = length candidates
            \<and> (\<forall>r\<in>set new_x. r \<noteq> [] \<and> last r = 0)"
    if b: "length (fst (bounds BC)) = ?d" "length (snd (bounds BC)) = ?d"
      "last (fst (bounds BC)) = 0"
  proof -
    let ?x = "unnormalize ?c (bounds BC)"
    have r: "optimize_HVKG_and_get_obs BC optimize_acqf (standard_bounds ?d) q
      = Inr (?x, BC_call BC ?x)"
      using optimize_HVKG_result [where optimize_acqf = optimize_acqf and BC = BC, OF assms(2,1,3)]
      by (simp add: Let_def)
    from c have "\<forall>r\<in>set ?c. length r = ?d \<and> r \<noteq> []" by blast
    from unnormalize_rows [OF this b(1,2)] c b(3)
    have "\<forall>r\<in>set ?x. r \<noteq> [] \<and> last r = 0" by fastforce
    with r show ?thesis by (intro exI [of _ ?x]) (simp add: length_unnormalize)
  qed
  from momf hvkg show ?thesis by blast
qed

lemma midpoint_standard_3:
  "midpoint_acqf (standard_bounds 3) q = (replicate q [1 / 2, 1 / 2, 1 / 2], 0)"
  by (simp add: midpoint_acqf_def standard_bounds_def numeral_3_eq_3)

lemma midpoint_standard_2:
  "midpoint_acqf (take_bounds 2 (standard_bounds 3)) q = (replicate q [1 / 2, 1 / 2], 0)"
  by (simp add: midpoint_acqf_def take_bounds_def standard_bounds_def numeral_3_eq_3 numeral_2_eq_2)

theorem zero_acquisition_value_sets_fidelity_zero_witness:
  "0 < dim toy_problem
   \<and> midpoint_acqf (standard_bounds (dim toy_problem)) 1 = ([[1 / 2, 1 / 2, 1 / 2]], 0)
   \<and> list_all (\<lambda>r. length r = dim toy_problem) [[1 / 2, 1 / 2, 1 / 2 :: real]]
   \<and> length (fst (bounds toy_problem)) = dim toy_problem
   \<and> length (snd (bounds toy_problem)) = dim toy_problem
   \<and> last (fst (bounds toy_problem)) = 0
   \<and> (\<exists>new_x new_obj.
        optimize_MOMF_and_get_obs toy_problem midpoint_acqf (standard_bounds (dim toy_problem)) 1
          = Inr (new_x, new_obj)
        \<and> (\<forall>r\<in>set new_x. r \<noteq> [] \<and> last r = 0))
   \<and> (\<exists>new_x.
        optimize_HVKG_and_get_obs toy_problem midpoint_acqf (standard_bounds (dim toy_problem)) 1
          = Inr (new_x, BC_call toy_problem new_x)
        \<and> (\<forall>r\<in>set new_x. r \<noteq> [] \<and> last r = 0))"
proof -
  have h: "0 < dim toy_problem"
    "midpoint_acqf (standard_bounds (dim toy_problem)) 1 = ([[1 / 2, 1 / 2, 1 / 2]], 0)"
    "\<forall>r\<in>set [[1 / 2, 1 / 2, 1 / 2 :: real]]. length r = dim toy_problem"
    by (simp_all add: toy_problem_simps midpoint_standard_3)
  have b: "length (fst (bounds toy_problem)) = dim toy_problem
    \<and> length (snd (bounds toy_problem)) = dim toy_problem \<and> last (fst (bounds toy_problem)) = 0"
    by (simp add: toy_problem_simps)
  from h(3) have l: "list_all (\<lambda>r. length r = dim toy_problem) [[1 / 2, 1 / 2, 1 / 2 :: real]]"
    by simp
  from h(1,2) l b zero_acquisition_value_sets_fidelity_zero
    [where BC = toy_problem and optimize_acqf = midpoint_acqf and q = 1
       and candidates = "[[1 / 2, 1 / 2, 1 / 2]]", OF h]
  show ?thesis by blast
qed

lemma optimize_qNEHVI_toy:
  "optimize_qNEHVI_and_get_obs toy_problem midpoint_acqf (take_bounds 2 (standard_bounds 3)) 1
       = Inr ([[1 / 2, 1 / 2, 1]], [[2, 1]])"
proof -
  have a: "midpoint_acqf (take_bounds 2 (standard_bounds 3)) 1 = ([[1 / 2, 1 / 2]], 0)"
    by (simp add: midpoint_standard_2)
  have u: "unnormalize [[1 / 2, 1 / 2]] (take_bounds 2 (standard_bounds 3)) = [[1 / 2, 1 / 2]]"
    by (simp add: take_standard_bounds unnormalize_standard)
  from optimize_qNEHVI_result [where optimize_acqf = midpoint_acqf and BC = toy_problem, OF a]
  show ?thesis by (simp add: u Let_def BC_call_def toy_problem_simps)
qed

text \<open>
  C5 as stated speaks of every optimization loop. The helper of the qNEHVI loop drops the
  acquisition value: with value 0 the point it observes still has fidelity 1.
\<close>

theorem qnehvi_ignores_zero_acquisition_value:
  "snd (midpoint_acqf (take_bounds 2 (standard_bounds 3)) 1) = 0
   \<and> optimize_qNEHVI_and_get_obs toy_problem midpoint_acqf (take_bounds 2 (standard_bounds 3)) 1
       = Inr ([[1 / 2, 1 / 2, 1]], [[2, 1]])"
proof -
  have "midpoint_acqf (take_bounds 2 (standard_bounds 3)) 1 = ([[1 / 2, 1 / 2]], 0)"
    by (simp add: midpoint_standard_2)
  then have "snd (midpoint_acqf (take_bounds 2 (standard_bounds 3)) 1) = 0"
    by (simp only: snd_conv)
  with optimize_qNEHVI_toy show ?thesis by blast
qed

section \<open>The single-fidelity loop\<close>

lemma rand_2_3:
  "rand rnd 0 2 3 = [[rnd 0 0, rnd 0 1, rnd 0 2], [rnd 1 0, rnd 1 1, rnd 1 2]]"
  by (simp add: rand_def upt_rec numeral_3_eq_3 numeral_2_eq_2)

lemma qnehvi_start_eq:
  "qnehvi_start BC rnd =
     Inr (loop_init [[rnd 0 0, rnd 0 1, 1], [rnd 1 0, rnd 1 1, 1]]
            (BC_call BC [[rnd 0 0, rnd 0 1, 1], [rnd 1 0, rnd 1 1, 1]]))"
  by (simp add: qnehvi_start_def rand_2_3 map_last_col_def)

text \<open>
  C10: the qNEHVI loop starts from two design points of three coordinates with fidelity 1;
  every batch its helper returns has fidelity 1 and is observed as such; so in every state
  of the loop all design points have fidelity exactly 1, and the observations are those of
  these points.
\<close>

theorem qnehvi_points_have_fidelity_one:
  assumes "qnehvi_start BC rnd = Inr s0"
    and "reaches (qnehvi_get_obs BC acq) budget s0 s"
  shows "length (train_x s0) = 2
       \<and> (\<forall>r\<in>set (train_x s0). length r = 3 \<and> last r = 1)
       \<and> (\<forall>r\<in>set (train_x s). r \<noteq> [] \<and> last r = 1)
       \<and> train_obj s = BC_call BC (train_x s)
       \<and> (\<forall>s' new_x new_obj. qnehvi_get_obs BC acq s' = Inr (new_x, new_obj) \<longrightarrow>
             (\<forall>r\<in>set new_x. r \<noteq> [] \<and> last r = 1) \<and> new_obj = BC_call BC new_x)"
proof -
  from assms(1) have s0: "s0 = loop_init [[rnd 0 0, rnd 0 1, 1], [rnd 1 0, rnd 1 1, 1]]
            (BC_call BC [[rnd 0 0, rnd 0 1, 1], [rnd 1 0, rnd 1 1, 1]])"
    by (simp add: qnehvi_start_eq)
  have init: "length (train_x s0) = 2" "\<forall>r\<in>set (train_x s0). length r = 3 \<and> last r = 1"
    "train_obj s0 = BC_call BC (train_x s0)"
    by (simp_all add: s0 loop_init_def)
  have step: "(\<forall>r\<in>set new_x. r \<noteq> [] \<and> last r = 1) \<and> new_obj = BC_call BC new_x"
    if "qnehvi_get_obs BC acq s' = Inr (new_x, new_obj)" for s' new_x new_obj
    using that unfolding qnehvi_get_obs_def by (rule optimize_qNEHVI_Inr)
  from assms(2) have "(\<forall>r\<in>set (train_x s). r \<noteq> [] \<and> last r = 1)
      \<and> train_obj s = BC_call BC (train_x s)"
  proof (induction rule: reaches.induct)
    case start
    from init show ?case by auto
  next
    case (pass s' new_x new_obj)
    from step [OF pass.hyps(3)] pass.IH show ?case by (auto simp: BC_call_def)
  qed
  with init(1,2) step show ?thesis by blast
qed

lemma tsum_cost_two_full:
  "tsum (cost_callable [[a, b, 1], [c, d, 1]]) = 2 * cost_func 1"
  by (simp add: tsum_def cost_callable_def last_col_def)

lemma qnehvi_get_obs_toy:
  "qnehvi_get_obs toy_problem midpoint_strategy s = Inr ([[1 / 2, 1 / 2, 1]], [[2, 1]])"
  using optimize_qNEHVI_toy
  by (simp add: qnehvi_get_obs_def midpoint_strategy_def toy_problem_simps BATCH_SIZE_def)

theorem qnehvi_points_have_fidelity_one_witness:
  "qnehvi_start toy_problem (\<lambda>i j. 1 / 2)
     = Inr (loop_init [[1 / 2, 1 / 2, 1], [1 / 2, 1 / 2, 1]] [[2, 1], [2, 1]])
   \<and> reaches (qnehvi_get_obs toy_problem midpoint_strategy) (EVAL_BUDGET False * cost_func 1)
       (loop_init [[1 / 2, 1 / 2, 1], [1 / 2, 1 / 2, 1]] [[2, 1], [2, 1]])
       (loop_update (loop_init [[1 / 2, 1 / 2, 1], [1 / 2, 1 / 2, 1]] [[2, 1], [2, 1]])
          [[1 / 2, 1 / 2, 1]] [[2, 1]])
   \<and> train_x (loop_update (loop_init [[1 / 2, 1 / 2, 1], [1 / 2, 1 / 2, 1]] [[2, 1], [2, 1]])
          [[1 / 2, 1 / 2, 1]] [[2, 1]])
       = [[1 / 2, 1 / 2, 1], [1 / 2, 1 / 2, 1], [1 / 2, 1 / 2, 1]]
   \<and> list_all (\<lambda>r. r \<noteq> [] \<and> last r = 1)
       (train_x (loop_update
          (loop_init [[1 / 2, 1 / 2, 1], [1 / 2, 1 / 2, 1]] [[2, 1], [2, 1]])
          [[1 / 2, 1 / 2, 1]] [[2, 1]]))"
proof -
  let ?s0 = "loop_init [[1 / 2, 1 / 2, 1], [1 / 2, 1 / 2, 1]] [[2, 1], [2, 1]]"
  let ?s1 = "loop_update ?s0 [[1 / 2, 1 / 2, 1]] [[2, 1]]"
  let ?g = "qnehvi_get_obs toy_problem midpoint_strategy"
  let ?b = "EVAL_BUDGET False * cost_func 1"
  have 1: "qnehvi_start toy_problem (\<lambda>i j. 1 / 2) = Inr ?s0"
    by (simp add: qnehvi_start_eq BC_call_def toy_problem_simps)
  have "total_cost ?s0 = 2 * cost_func 1" by (simp add: loop_init_def tsum_cost_two_full)
  moreover have "0 < cost_func 1" by (simp add: cost_func_def)
  ultimately have "total_cost ?s0 < ?b" by (simp add: EVAL_BUDGET_def)
  with reaches.start [of ?g ?b ?s0] have 2: "reaches ?g ?b ?s0 ?s1"
    by (rule reaches.pass) (rule qnehvi_get_obs_toy)
  have 3: "train_x ?s1 = [[1 / 2, 1 / 2, 1], [1 / 2, 1 / 2, 1], [1 / 2, 1 / 2, 1]]"
    by (simp add: loop_init_def)
  from qnehvi_points_have_fidelity_one [OF 1 2]
  have "list_all (\<lambda>r. r \<noteq> [] \<and> last r = 1) (train_x ?s1)"
    unfolding list_all_iff by blast
  with 1 2 3 show ?thesis by blast
qed

lemma momf_get_obs_toy:
  "momf_get_obs toy_problem midpoint_strategy s = Inr ([[1 / 2, 1 / 2, 0]], [[1, 2, 0]])"
proof -
  have a: "midpoint_acqf (standard_bounds 3) (Suc 0) = ([[1 / 2, 1 / 2, 1 / 2]], 0)"
    by (simp add: midpoint_standard_3)
  from optimize_MOMF_result [where optimize_acqf = midpoint_acqf and BC = toy_problem, OF a]
  show ?thesis
    by (simp add: momf_get_obs_def midpoint_strategy_def toy_problem_simps BATCH_SIZE_def Let_def)
qed

theorem loop_state_grows_witness:
  "reaches (momf_get_obs toy_problem midpoint_strategy) (EVAL_BUDGET False * cost_func 1)
     (loop_init [] []) (loop_update (loop_init [] []) [[1 / 2, 1 / 2, 0]] [[1, 2, 0]])
   \<and> total_cost (loop_init [] [])
       \<le> total_cost (loop_update (loop_init [] []) [[1 / 2, 1 / 2, 0]] [[1, 2, 0]])
   \<and> prefix (train_x (loop_init [] []))
       (train_x (loop_update (loop_init [] []) [[1 / 2, 1 / 2, 0]] [[1, 2, 0]]))
   \<and> prefix (train_obj (loop_init [] []))
       (train_obj (loop_update (loop_init [] []) [[1 / 2, 1 / 2, 0]] [[1, 2, 0]]))"
proof -
  let ?s0 = "loop_init [] []"
  let ?s1 = "loop_update ?s0 [[1 / 2, 1 / 2, 0]] [[1, 2, 0]]"
  let ?g = "momf_get_obs toy_problem midpoint_strategy"
  let ?b = "EVAL_BUDGET False * cost_func 1"
  have "total_cost ?s0 = 0" by (simp add: loop_init_def tsum_cost_callable_Nil)
  moreover have "0 < cost_func 1" by (simp add: cost_func_def)
  ultimately have "total_cost ?s0 < ?b" by (simp add: EVAL_BUDGET_def)
  with reaches.start [of ?g ?b ?s0] have r: "reaches ?g ?b ?s0 ?s1"
    by (rule reaches.pass) (rule momf_get_obs_toy)
  from r loop_state_grows [OF r] show ?thesis by blast
qed

section \<open>The non-domination filter\<close>

lemma posterior_means_eq:
  "length discrete_set \<le> n \<Longrightarrow>
   posterior_means model discrete_set n start = map model (drop start discrete_set)"
proof (induction model discrete_set n start rule: posterior_means.induct)
  case (1 model discrete_set n start)
  show ?case
  proof (cases "start < n")
    case True
    have "map model (take CHUNK_SIZE (drop start discrete_set))
        @ map model (drop (start + CHUNK_SIZE) discrete_set)
      = map model (take CHUNK_SIZE (drop start discrete_set)
        @ drop CHUNK_SIZE (drop start discrete_set))"
      by (simp add: add.commute)
    also have "\<dots> = map model (drop start discrete_set)"
      by (simp only: append_take_drop_id)
    finally show ?thesis using True "1.IH" "1.prems"
      by (simp add: posterior_means.simps [of model discrete_set n start])
  next
    case False
    with "1.prems" show ?thesis
      by (simp add: posterior_means.simps [of model discrete_set n start])
  qed
qed

lemma mask_select_map: "mask_select X (map p X) = filter p X"
  by (induction X) (simp_all add: mask_select_def)

lemma pareto_filter_eq:
  assumes "length discrete_set \<le> NUM_DISCRETE_POINTS SMOKE_TEST"
  shows "pareto_filter SMOKE_TEST model discrete_set =
     filter (\<lambda>x. \<not> list_ex (\<lambda>z. dominates z (model x)) (map model discrete_set)) discrete_set"
proof -
  have "is_non_dominated_loop (map model discrete_set)
      = map (\<lambda>x. \<not> list_ex (\<lambda>z. dominates z (model x)) (map model discrete_set)) discrete_set"
    by (simp add: is_non_dominated_loop_def comp_def)
  then show ?thesis
    using assms by (simp add: pareto_filter_def posterior_means_eq mask_select_map)
qed

lemma length_rand: "length (rand rnd i n d) = n"
  by (simp add: rand_def)

lemma discrete_candidates_length:
  assumes "discrete_candidates BC SMOKE_TEST rnd is_mf_model = Inr D"
  shows "length D = NUM_DISCRETE_POINTS SMOKE_TEST"
  using assms
  by (auto simp: discrete_candidates_def Let_def map_last_col_def project_def length_rand
      split: if_splits)

lemma discrete_candidates_mf:
  assumes "0 < dim BC"
  shows "discrete_candidates BC SMOKE_TEST rnd True =
     Inr (map (\<lambda>r. butlast r @ [1])
            (project (dim BC) (rand rnd 0 (NUM_DISCRETE_POINTS SMOKE_TEST) (dim BC - 1))))"
proof -
  have "\<forall>r\<in>set (project (dim BC) (rand rnd 0 (NUM_DISCRETE_POINTS SMOKE_TEST) (dim BC - 1))).
      r \<noteq> []"
    by (simp add: project_def)
  from map_last_col_Inr [OF this, of "\<lambda>_. 1"] assms show ?thesis
    by (simp add: discrete_candidates_def Let_def)
qed

text \<open>
  C8: in the discretized evaluator the points that pass the non-domination filter are
  points of the candidate set, in their order and none added; and of any two points that
  pass, neither one's predicted objectives dominate the other's.
\<close>

theorem pareto_filter_sound:
  assumes "discrete_candidates BC SMOKE_TEST rnd is_mf_model = Inr discrete_set"
  shows "subseq (pareto_filter SMOKE_TEST model discrete_set) discrete_set
       \<and> set (pareto_filter SMOKE_TEST model discrete_set) \<subseteq> set discrete_set
       \<and> (\<forall>x\<in>set (pareto_filter SMOKE_TEST model discrete_set).
            \<forall>y\<in>set (pareto_filter SMOKE_TEST model discrete_set).
              \<not> dominates (model x) (model y))"
proof -
  from assms have "length discrete_set \<le> NUM_DISCRETE_POINTS SMOKE_TEST"
    by (simp add: discrete_candidates_length)
  then have eq: "pareto_filter SMOKE_TEST model discrete_set =
     filter (\<lambda>x. \<not> list_ex (\<lambda>z. dominates z (model x)) (map model discrete_set)) discrete_set"
    by (rule pareto_filter_eq)
  show ?thesis unfolding eq by (auto simp: list_ex_iff)
qed

theorem pareto_filter_sound_witness:
  "\<exists>discrete_set.
     discrete_candidates toy_problem True (\<lambda>i j. 1 / 2) True = Inr discrete_set
     \<and> subseq (pareto_filter True (evaluate toy_problem) discrete_set) discrete_set
     \<and> list_all (\<lambda>x. list_all (\<lambda>y. \<not> dominates (evaluate toy_problem x) (evaluate toy_problem y))
          (pareto_filter True (evaluate toy_problem) discrete_set))
        (pareto_filter True (evaluate toy_problem) discrete_set)"
proof -
  have "0 < dim toy_problem" by (simp add: toy_problem_simps)
  from discrete_candidates_mf [OF this, of True "\<lambda>i j. 1 / 2"]
  obtain D where D: "discrete_candidates toy_problem True (\<lambda>i j. 1 / 2) True = Inr D" by blast
  from pareto_filter_sound [OF D, of "evaluate toy_problem"] D show ?thesis
    unfolding list_all_iff by blast
qed

lemma dominates_example: "dominates [1, 1] [1, 0]" "\<not> dominates [1, 0] [0, 1]"
  by (simp_all add: dominates_def)

lemma pareto_filter_example:
  "pareto_filter True (take 2) [[1, 1, 1], [0, 0, 1], [1, 0, 1], [0, 2, 1]]
     = [[1, 1, 1], [0, 2, 1]]"
  by (simp add: pareto_filter_def posterior_means_eq NUM_DISCRETE_POINTS_def
      is_non_dominated_loop_def mask_select_def dominates_def)

section \<open>The evaluated Pareto set is feasible\<close>

lemma set_mask_select: "set (mask_select X m) \<subseteq> set X"
  by (auto simp: mask_select_def dest: set_zip_leftD)

lemma unnormalize_feasible:
  assumes l: "length (fst (bounds BC)) = d" and u: "length (snd (bounds BC)) = d"
    and o: "list_all2 (\<le>) (fst (bounds BC)) (snd (bounds BC))"
    and d: "0 < d"
    and X: "\<forall>z\<in>set X. length z = d \<and> (\<forall>x\<in>set z. 0 \<le> x \<and> x \<le> 1) \<and> last z = 1"
  shows "list_all (feasible BC) (unnormalize X (bounds BC))"
proof -
  let ?l = "fst (bounds BC)" and ?u = "snd (bounds BC)"
  have "feasible BC (map (\<lambda>(x, l, u). x * (u - l) + l) (zip z (zip ?l ?u)))"
    if z: "z \<in> set X" for z
  proof -
    let ?r = "map (\<lambda>(x, l, u). x * (u - l) + l) (zip z (zip ?l ?u))"
    from X z have len: "length z = d" and rng: "\<forall>x\<in>set z. 0 \<le> x \<and> x \<le> 1"
      and last: "last z = 1" by blast+
    have lr: "length ?r = d" using len l u by simp
    have nth: "?r ! i = z ! i * (?u ! i - ?l ! i) + ?l ! i" if "i < d" for i
      using that len l u by simp
    have lo: "?l ! i \<le> ?r ! i" and hi: "?r ! i \<le> ?u ! i" if i: "i < d" for i
    proof -
      from i len have "z ! i \<in> set z" by simp
      with rng have z01: "0 \<le> z ! i" "z ! i \<le> 1" by blast+
      from list_all2_nthD [OF o] i l have lu: "?l ! i \<le> ?u ! i" by simp
      from z01(1) lu have "0 \<le> z ! i * (?u ! i - ?l ! i)" by simp
      then show "?l ! i \<le> ?r ! i" by (simp add: nth [OF i])
      from z01(2) lu have "z ! i * (?u ! i - ?l ! i) \<le> 1 * (?u ! i - ?l ! i)"
        by (intro mult_right_mono) simp_all
      then show "?r ! i \<le> ?u ! i" by (simp add: nth [OF i])
    qed
    have "in_bounds (bounds BC) ?r"
      unfolding in_bounds_def using lr l u lo hi by (simp add: list_all2_conv_all_nth)
    moreover have "?r \<noteq> []" using lr d by auto
    moreover have "last ?r = last ?u"
    proof -
      have "z \<noteq> []" using len d by auto
      from last_unnormalize_row [OF _ _ this, of ?l ?u] len l u last show ?thesis by simp
    qed
    ultimately show ?thesis by (simp add: feasible_def)
  qed
  then show ?thesis by (auto simp: unnormalize_def list_all_iff)
qed

lemma max_hv_upper:
  assumes "bdd_above (achievable BC hv)" "list_all (feasible BC) X"
  shows "hv (BC_call BC X) \<le> max_hv BC hv"
  unfolding max_hv_def using assms(2)
  by (intro cSup_upper assms(1)) (auto simp: achievable_def)

lemma rand_rows:
  assumes "uniform rnd" "r \<in> set (rand rnd i n k)"
  shows "length r = k \<and> (\<forall>x\<in>set r. 0 \<le> x \<and> x \<le> 1)"
  using assms by (auto simp: rand_def uniform_def less_imp_le)

lemma project_rows:
  assumes "\<forall>r\<in>set X. length r = d - 1 \<and> (\<forall>x\<in>set r. 0 \<le> x \<and> x \<le> 1)" "0 < d"
  shows "\<forall>z\<in>set (project d X). length z = d \<and> (\<forall>x\<in>set z. 0 \<le> x \<and> x \<le> 1) \<and> last z = 1"
  using assms by (auto simp: project_def)

lemma set_last_rows:
  assumes "\<forall>r\<in>set X. length r = k \<and> (\<forall>x\<in>set r. 0 \<le> x \<and> x \<le> 1)" "0 < k"
  shows "map_last_col (\<lambda>_. 1) X = Inr (map (\<lambda>r. butlast r @ [1]) X)
       \<and> (\<forall>z\<in>set (map (\<lambda>r. butlast r @ [1]) X).
             length z = k \<and> (\<forall>x\<in>set z. 0 \<le> x \<and> x \<le> 1) \<and> last z = 1)"
proof -
  from assms have ne: "\<forall>r\<in>set X. r \<noteq> []" by auto
  have "length z = k \<and> (\<forall>x\<in>set z. 0 \<le> x \<and> x \<le> 1) \<and> last z = 1"
    if "z \<in> set (map (\<lambda>r. butlast r @ [1]) X)" for z
  proof -
    from that obtain r where r: "r \<in> set X" "z = butlast r @ [1]" by auto
    with assms have "length r = k" "\<forall>x\<in>set r. 0 \<le> x \<and> x \<le> 1" by blast+
    moreover have "set (butlast r) \<subseteq> set r" by (auto dest: in_set_butlastD)
    ultimately show ?thesis using r(2) assms(2) by auto
  qed
  with map_last_col_Inr [OF ne] show ?thesis by blast
qed

lemma discrete_candidates_rows:
  assumes "2 \<le> dim BC" "uniform rnd"
  shows "\<exists>D. discrete_candidates BC SMOKE_TEST rnd is_mf_model = Inr D
     \<and> (\<forall>z\<in>set D. length z = (if is_mf_model then dim BC else dim BC - 1)
           \<and> (\<forall>x\<in>set z. 0 \<le> x \<and> x \<le> 1) \<and> last z = 1)"
proof -
  let ?d = "dim BC"
  let ?R = "rand rnd 0 (NUM_DISCRETE_POINTS SMOKE_TEST) (?d - 1)"
  have R: "\<forall>r\<in>set ?R. length r = ?d - 1 \<and> (\<forall>x\<in>set r. 0 \<le> x \<and> x \<le> 1)"
    using rand_rows [OF assms(2)] by blast
  show ?thesis
  proof (cases is_mf_model)
    case True
    from assms(1) have "0 < ?d" by simp
    from project_rows [OF R this]
    have "\<forall>r\<in>set (project ?d ?R). length r = ?d \<and> (\<forall>x\<in>set r. 0 \<le> x \<and> x \<le> 1)" by blast
    from set_last_rows [OF this \<open>0 < ?d\<close>] True assms(1) show ?thesis
      by (simp add: discrete_candidates_def Let_def)
  next
    case False
    from assms(1) have "0 < ?d - 1" by simp
    from set_last_rows [OF R this] False assms(1) show ?thesis
      by (simp add: discrete_candidates_def Let_def)
  qed
qed

lemma final_rows:
  assumes "\<forall>z\<in>set D. length z = (if is_mf_model then d else d - 1)
           \<and> (\<forall>x\<in>set z. 0 \<le> x \<and> x \<le> 1) \<and> (is_mf_model \<longrightarrow> last z = 1)"
    and "set P \<subseteq> set D" "0 < d"
  shows "\<forall>z\<in>set (if \<not> is_mf_model then project d P else P).
           length z = d \<and> (\<forall>x\<in>set z. 0 \<le> x \<and> x \<le> 1) \<and> last z = 1"
proof (cases is_mf_model)
  case True
  with assms show ?thesis by auto
next
  case False
  with assms have "\<forall>r\<in>set P. length r = d - 1 \<and> (\<forall>x\<in>set r. 0 \<le> x \<and> x \<le> 1)" by auto
  from project_rows [OF this assms(3)] False show ?thesis by simp
qed

text \<open>
  C9: for both strategies the hypervolume that \<^verbatim>\<open>get_pareto\<close> returns is at most the
  maximum achievable hypervolume of the problem: the design points at which the true
  objective is evaluated lie within the bounds and have the target fidelity, so their
  hypervolume is one of the achievable ones. (The problem has at least two dimensions and
  ordered bounds, the draws are uniform, the search returns points of the unit box, and the
  achievable hypervolumes are bounded.)
\<close>

theorem get_pareto_below_max_hv:
  assumes dim: "2 \<le> dim BC"
    and l: "length (fst (bounds BC)) = dim BC" and u: "length (snd (bounds BC)) = dim BC"
    and o: "list_all2 (\<le>) (fst (bounds BC)) (snd (bounds BC))"
    and bdd: "bdd_above (achievable BC compute_hypervolume)"
    and rnd: "uniform rnd"
    and res: "list_all (\<lambda>r. length r = dim BC - 1 \<and> list_all (\<lambda>x. 0 \<le> x \<and> x \<le> 1) r) res_X"
  shows "(\<exists>v. get_pareto BC compute_hypervolume SMOKE_TEST rnd model is_mf_model = Inr v
            \<and> v \<le> max_hv BC compute_hypervolume)
       \<and> get_pareto_nsga2 BC compute_hypervolume res_X is_non_dominated model is_mf_model
            \<le> max_hv BC compute_hypervolume"
proof -
  let ?d = "dim BC"
  from dim have d: "0 < ?d" by simp
  have discrete: "\<exists>v. get_pareto BC compute_hypervolume SMOKE_TEST rnd model is_mf_model = Inr v
            \<and> v \<le> max_hv BC compute_hypervolume"
  proof -
    from discrete_candidates_rows [OF dim rnd, of SMOKE_TEST is_mf_model]
    obtain D where D: "discrete_candidates BC SMOKE_TEST rnd is_mf_model = Inr D"
      and rows: "\<forall>z\<in>set D. length z = (if is_mf_model then ?d else ?d - 1)
           \<and> (\<forall>x\<in>set z. 0 \<le> x \<and> x \<le> 1) \<and> last z = 1" by blast
    let ?P = "pareto_filter SMOKE_TEST model D"
    let ?X = "if \<not> is_mf_model then project ?d ?P else ?P"
    have sub: "set ?P \<subseteq> set D" by (simp add: pareto_filter_def Let_def set_mask_select)
    from rows have "\<forall>z\<in>set D. length z = (if is_mf_model then ?d else ?d - 1)
           \<and> (\<forall>x\<in>set z. 0 \<le> x \<and> x \<le> 1) \<and> (is_mf_model \<longrightarrow> last z = 1)" by blast
    then have "\<forall>z\<in>set ?X. length z = ?d \<and> (\<forall>x\<in>set z. 0 \<le> x \<and> x \<le> 1) \<and> last z = 1"
      using sub d by (rule final_rows [where D = D and P = ?P])
    from unnormalize_feasible [OF l u o d this]
    have "compute_hypervolume (BC_call BC (unnormalize ?X (bounds BC)))
        \<le> max_hv BC compute_hypervolume" by (rule max_hv_upper [OF bdd])
    moreover have "get_pareto BC compute_hypervolume SMOKE_TEST rnd model is_mf_model
        = Inr (compute_hypervolume (BC_call BC (unnormalize ?X (bounds BC))))"
      by (simp add: get_pareto_def D Let_def)
    ultimately show ?thesis by simp
  qed
  have nsga2: "get_pareto_nsga2 BC compute_hypervolume res_X is_non_dominated model is_mf_model
            \<le> max_hv BC compute_hypervolume"
  proof -
    let ?S = "if is_mf_model then project ?d res_X else res_X"
    let ?P = "mask_select ?S (is_non_dominated (map model ?S))"
    let ?X = "if \<not> is_mf_model then project ?d ?P else ?P"
    from res have r: "\<forall>r\<in>set res_X. length r = ?d - 1 \<and> (\<forall>x\<in>set r. 0 \<le> x \<and> x \<le> 1)"
      by (simp add: list_all_iff)
    have sub: "set ?P \<subseteq> set ?S" by (rule set_mask_select)
    have "\<forall>z\<in>set ?S. length z = (if is_mf_model then ?d else ?d - 1)
           \<and> (\<forall>x\<in>set z. 0 \<le> x \<and> x \<le> 1) \<and> (is_mf_model \<longrightarrow> last z = 1)"
      using project_rows [OF r d] r by auto
    then have "\<forall>z\<in>set ?X. length z = ?d \<and> (\<forall>x\<in>set z. 0 \<le> x \<and> x \<le> 1) \<and> last z = 1"
      using sub d by (rule final_rows [where D = ?S and P = ?P])
    from unnormalize_feasible [OF l u o d this]
    have "compute_hypervolume (BC_call BC (unnormalize ?X (bounds BC)))
        \<le> max_hv BC compute_hypervolume" by (rule max_hv_upper [OF bdd])
    then show ?thesis by (simp add: get_pareto_nsga2_def Let_def)
  qed
  from discrete nsga2 show ?thesis ..
qed

lemma fold_sweep_bound:
  assumes "\<forall>y\<in>set ys. 0 \<le> y ! 0 \<and> y ! 0 \<le> B \<and> y ! 1 \<le> B"
    and "0 \<le> b" "b \<le> B" "a \<le> B * b"
  shows "fst (fold sweep ys (b, a)) \<le> B \<and> 0 \<le> fst (fold sweep ys (b, a))
       \<and> snd (fold sweep ys (b, a)) \<le> B * fst (fold sweep ys (b, a))"
  using assms
proof (induction ys arbitrary: b a)
  case Nil
  then show ?case by simp
next
  case (Cons y ys)
  show ?case
  proof (cases "b < y ! 1")
    case False
    then have "sweep y (b, a) = (b, a)" by (simp add: sweep_def)
    with Cons.IH [of b a] Cons.prems show ?thesis by simp
  next
    case True
    then have s: "sweep y (b, a) = (y ! 1, a + y ! 0 * (y ! 1 - b))" by (simp add: sweep_def)
    from Cons.prems(1) have y: "0 \<le> y ! 0" "y ! 0 \<le> B" "y ! 1 \<le> B" by simp_all
    from True y(2) have "y ! 0 * (y ! 1 - b) \<le> B * (y ! 1 - b)"
      by (intro mult_right_mono) simp_all
    with Cons.prems(4) have "a + y ! 0 * (y ! 1 - b) \<le> B * b + B * (y ! 1 - b)" by simp
    also have "\<dots> = B * (y ! 1)" by (simp add: algebra_simps)
    finally have a: "a + y ! 0 * (y ! 1 - b) \<le> B * (y ! 1)" .
    from True Cons.prems(2) have "0 \<le> y ! 1" by simp
    from Cons.IH [OF _ this y(3) a] Cons.prems(1) show ?thesis by (simp add: s)
  qed
qed

lemma hypervolume_2d_bound:
  assumes "\<forall>y\<in>set Y. y ! 0 \<le> B \<and> y ! 1 \<le> B" "0 \<le> B"
  shows "hypervolume_2d Y \<le> B * B"
proof -
  let ?ys = "rev (sort_key (\<lambda>y. y ! 0) (filter (\<lambda>y. length y = 2 \<and> 0 < y ! 0 \<and> 0 < y ! 1) Y))"
  have "\<forall>y\<in>set ?ys. 0 \<le> y ! 0 \<and> y ! 0 \<le> B \<and> y ! 1 \<le> B" using assms(1) by auto
  from fold_sweep_bound [OF this, of 0 0] assms(2)
  have f: "fst (fold sweep ?ys (0, 0)) \<le> B" "0 \<le> fst (fold sweep ?ys (0, 0))"
    "snd (fold sweep ?ys (0, 0)) \<le> B * fst (fold sweep ?ys (0, 0))" by simp_all
  from f(1) assms(2) have "B * fst (fold sweep ?ys (0, 0)) \<le> B * B" by (rule mult_left_mono)
  with f(3) show ?thesis by (simp add: hypervolume_2d_def)
qed

lemma toy_feasible_sum:
  assumes "feasible toy_problem x"
  shows "0 \<le> sum_list x \<and> sum_list x \<le> 3"
proof -
  from assms have b: "in_bounds ([0, 0, 0], [1, 1, 1]) x"
    by (simp add: feasible_def toy_problem_simps)
  then have "length x = 3" by (simp add: in_bounds_def)
  then obtain a b c where x: "x = [a, b, c]"
    by (auto simp: numeral_3_eq_3 length_Suc_conv)
  from b show ?thesis by (simp add: in_bounds_def x)
qed

lemma toy_achievable_bdd: "bdd_above (achievable toy_problem hypervolume_2d)"
proof (rule bdd_aboveI [of _ "3 * 3"])
  fix v assume "v \<in> achievable toy_problem hypervolume_2d"
  then obtain X where v: "v = hypervolume_2d (BC_call toy_problem X)"
    and X: "list_all (feasible toy_problem) X" by (auto simp: achievable_def)
  have "\<forall>y\<in>set (BC_call toy_problem X). y ! 0 \<le> 3 \<and> y ! 1 \<le> 3"
  proof
    fix y assume "y \<in> set (BC_call toy_problem X)"
    then obtain x where "x \<in> set X" and y: "y = [sum_list x, 3 - sum_list x]"
      by (auto simp: BC_call_def toy_problem_simps)
    with X have "feasible toy_problem x" by (simp add: list_all_iff)
    from toy_feasible_sum [OF this] show "y ! 0 \<le> 3 \<and> y ! 1 \<le> 3" by (simp add: y)
  qed
  then show "v \<le> 3 * 3" unfolding v by (rule hypervolume_2d_bound) simp
qed

theorem get_pareto_below_max_hv_witness:
  "2 \<le> dim toy_problem
   \<and> length (fst (bounds toy_problem)) = dim toy_problem
   \<and> length (snd (bounds toy_problem)) = dim toy_problem
   \<and> list_all2 (\<le>) (fst (bounds toy_problem)) (snd (bounds toy_problem))
   \<and> bdd_above (achievable toy_problem hypervolume_2d)
   \<and> uniform (\<lambda>i j. 1 / 2)
   \<and> list_all (\<lambda>r. length r = dim toy_problem - 1 \<and> list_all (\<lambda>x. 0 \<le> x \<and> x \<le> 1) r)
        [[1 / 2, 1 / 2 :: real]]
   \<and> (\<exists>v. get_pareto toy_problem hypervolume_2d True (\<lambda>i j. 1 / 2) (evaluate toy_problem) True
            = Inr v
          \<and> v \<le> max_hv toy_problem hypervolume_2d)
   \<and> get_pareto_nsga2 toy_problem hypervolume_2d [[1 / 2, 1 / 2]] is_non_dominated_loop
        (evaluate toy_problem) True
       \<le> max_hv toy_problem hypervolume_2d"
proof -
  have h: "2 \<le> dim toy_problem"
    "length (fst (bounds toy_problem)) = dim toy_problem"
    "length (snd (bounds toy_problem)) = dim toy_problem"
    "list_all2 (\<le>) (fst (bounds toy_problem)) (snd (bounds toy_problem))"
    "bdd_above (achievable toy_problem hypervolume_2d)"
    "uniform (\<lambda>i j. 1 / 2)"
    "list_all (\<lambda>r. length r = dim toy_problem - 1 \<and> list_all (\<lambda>x. 0 \<le> x \<and> x \<le> 1) r)
        [[1 / 2, 1 / 2 :: real]]"
    by (simp_all add: toy_problem_simps toy_achievable_bdd uniform_def)
  from h get_pareto_below_max_hv [OF h, of True "evaluate toy_problem" True is_non_dominated_loop]
  show ?thesis by blast
qed

lemma get_pareto_nsga2_example:
  "get_pareto_nsga2 toy_problem hypervolume_2d [[1 / 2, 1 / 2]] is_non_dominated_loop
     (evaluate toy_problem) True = 2"
  by (simp add: get_pareto_nsga2_def project_def toy_problem_simps is_non_dominated_loop_def
      dominates_def mask_select_def unnormalize_def BC_call_def hypervolume_2d_def sweep_def)

end
